theory Spec2Isabelle
  imports Main "HOL-Library.Word" "HOL-Library.Signed_Division"
begin

unbundle bit_operations_syntax

section \<open>The timer package of merecat (src/timers.c)\<close>

text \<open>
  The C file keeps all timers in heap records linked through \<open>prev\<close>/\<open>next\<close> pointers,
  reachable from a static array of \<open>HASH_SIZE\<close> list heads and from a free list.
  The embedding keeps that shape: a pointer is an address (\<open>nat\<close>), \<open>NULL\<close> is \<open>None\<close>,
  and the heap is a function from addresses to timer records, so that every pointer
  assignment of the source is one update of the store and aliasing behaves as in C.

  Conventions.
  \<^item> \<open>time_t\<close>, \<open>suseconds_t\<close>, \<open>long\<close> and the \<open>int\<close> counters are modelled by \<open>int\<close>:
    signed overflow is undefined in C, so the model describes executions in which all
    values stay in range. A statement that depends on a computed time says so: it
    carries the hypothesis (\<open>add_fits\<close>, \<open>ms_fits\<close>) that the computation stays in the
    range of a 64-bit \<open>long\<close>. The C operators \<open>/\<close> and \<open>%\<close> truncate towards zero; they are
    \<open>sdiv\<close> and \<open>smod\<close>.
  \<^item> The casts to \<open>unsigned int\<close> in \<open>hash\<close> are reductions to 32-bit words.
  \<^item> \<open>malloc\<close> is an input of \<open>tmr_create\<close>: \<open>None\<close> when it fails, otherwise the address
    it returns. \<open>free\<close> leaves the store alone (the record merely becomes unreachable).
  \<^item> A callback is external code. It is identified by a number (the function pointer);
    invoking it appends the call, together with the address of the timer that fired,
    to the log \<open>calls\<close>. Callbacks are taken not to call back into the timer package.
  \<^item> A loop that follows pointers may run forever on a cyclic structure; such loops are
    partial functions into \<open>option\<close>, where \<open>None\<close> stands for not returning.
\<close>

subsection \<open>Data\<close>

type_synonym addr = nat

record timeval =
  tv_sec :: int
  tv_usec :: int

record timer =
  cb :: nat
  arg :: int
  msecs :: int
  periodic :: int
  time :: timeval
  prev :: "addr option"
  "next" :: "addr option"
  hash_field :: nat

record registry =
  timers :: "nat \<Rightarrow> addr option"
  free_timers :: "addr option"
  alloc_count :: int
  active_count :: int
  free_count :: int
  mem :: "addr \<Rightarrow> timer"
  calls :: "(addr \<times> nat \<times> int \<times> timeval) list"

definition HASH_SIZE :: nat where
  "HASH_SIZE = 67"

subsection \<open>Store updates\<close>

definition set_bucket :: "registry \<Rightarrow> nat \<Rightarrow> addr option \<Rightarrow> registry" where
  "set_bucket s h p = s\<lparr>timers := (timers s)(h := p)\<rparr>"

definition set_next :: "registry \<Rightarrow> addr \<Rightarrow> addr option \<Rightarrow> registry" where
  "set_next s a p = s\<lparr>mem := (mem s)(a := (mem s a)\<lparr>next := p\<rparr>)\<rparr>"

definition set_prev :: "registry \<Rightarrow> addr \<Rightarrow> addr option \<Rightarrow> registry" where
  "set_prev s a p = s\<lparr>mem := (mem s)(a := (mem s a)\<lparr>prev := p\<rparr>)\<rparr>"

definition set_time :: "registry \<Rightarrow> addr \<Rightarrow> timeval \<Rightarrow> registry" where
  "set_time s a tv = s\<lparr>mem := (mem s)(a := (mem s a)\<lparr>time := tv\<rparr>)\<rparr>"

definition set_hash :: "registry \<Rightarrow> addr \<Rightarrow> nat \<Rightarrow> registry" where
  "set_hash s a h = s\<lparr>mem := (mem s)(a := (mem s a)\<lparr>hash_field := h\<rparr>)\<rparr>"

subsection \<open>Time arithmetic\<close>

text \<open>
  The comparison used by \<open>l_add\<close>:
  \<open>t->time.tv_sec < t2->time.tv_sec || (t->time.tv_sec == t2->time.tv_sec &&
  t->time.tv_usec <= t2->time.tv_usec)\<close>.
\<close>

definition tv_le :: "timeval \<Rightarrow> timeval \<Rightarrow> bool" where
  "tv_le a b \<longleftrightarrow> tv_sec a < tv_sec b \<or> (tv_sec a = tv_sec b \<and> tv_usec a \<le> tv_usec b)"

text \<open>
  The test of \<open>tmr_run\<close> for a timer that is not ready yet:
  \<open>t->time.tv_sec > now->tv_sec || (t->time.tv_sec == now->tv_sec &&
  t->time.tv_usec > now->tv_usec)\<close>.
\<close>

definition tv_gt :: "timeval \<Rightarrow> timeval \<Rightarrow> bool" where
  "tv_gt a b \<longleftrightarrow> tv_sec a > tv_sec b \<or> (tv_sec a = tv_sec b \<and> tv_usec a > tv_usec b)"

text \<open>
  The block that \<open>tmr_create\<close>, \<open>tmr_run\<close> and \<open>tmr_reset\<close> each contain:
  \<open>tv_sec += msecs / 1000L; tv_usec += (msecs % 1000L) * 1000L;
  if (tv_usec >= 1000000L) { tv_sec += tv_usec / 1000000L; tv_usec %= 1000000L; }\<close>
\<close>

definition tv_add_msecs :: "timeval \<Rightarrow> int \<Rightarrow> timeval" where
  "tv_add_msecs tv ms =
     (let sec = tv_sec tv + ms sdiv 1000;
          usec = tv_usec tv + (ms smod 1000) * 1000
      in if usec \<ge> 1000000
         then \<lparr>tv_sec = sec + usec sdiv 1000000, tv_usec = usec smod 1000000\<rparr>
         else \<lparr>tv_sec = sec, tv_usec = usec\<rparr>)"

subsection \<open>hash, l_add, l_remove, l_resort\<close>

definition hash :: "timer \<Rightarrow> nat" where
  "hash t = unat ((word_of_int (tv_sec (time t)) :: 32 word)
                  XOR (word_of_int (tv_usec (time t)) :: 32 word)) mod HASH_SIZE"

text \<open>
  The \<open>for\<close> loop of \<open>l_add\<close> that walks the list to the insertion point; \<open>t2prev\<close> and
  \<open>t2\<close> are the loop variables (\<open>t2\<close> first). Nothing is written before the point is found.
\<close>

partial_function (option) l_add_walk ::
  "registry \<Rightarrow> addr \<Rightarrow> addr option \<Rightarrow> addr \<Rightarrow> registry option" where
  "l_add_walk s t t2 t2prev =
     (case t2 of
        None \<Rightarrow>
          Some (set_next (set_prev (set_next s t2prev (Some t)) t (Some t2prev)) t None)
      | Some t2a \<Rightarrow>
          if tv_le (time (mem s t)) (time (mem s t2a))
          then Some (set_prev (set_next (set_prev (set_next s t2prev (Some t))
                       t (Some t2prev)) t (Some t2a)) t2a (Some t))
          else l_add_walk s t (next (mem s t2a)) t2a)"

declare l_add_walk.simps [code]

definition l_add :: "registry \<Rightarrow> addr \<Rightarrow> registry option" where
  "l_add s t =
     (let h = hash_field (mem s t) in
      case timers s h of
        None \<Rightarrow> Some (set_prev (set_next (set_bucket s h (Some t)) t None) t None)
      | Some t2 \<Rightarrow>
          if tv_le (time (mem s t)) (time (mem s t2))
          then Some (set_prev (set_next (set_prev (set_bucket s h (Some t)) t None)
                       t (Some t2)) t2 (Some t))
          else l_add_walk s t (next (mem s t2)) t2)"

definition l_remove :: "registry \<Rightarrow> addr option \<Rightarrow> registry" where
  "l_remove s t =
     (case t of
        None \<Rightarrow> s
      | Some ta \<Rightarrow>
          let s1 = (case prev (mem s ta) of
                      None \<Rightarrow> set_bucket s (hash_field (mem s ta)) (next (mem s ta))
                    | Some p \<Rightarrow> set_next s p (next (mem s ta)))
          in case next (mem s1 ta) of
               None \<Rightarrow> s1
             | Some n \<Rightarrow> set_prev s1 n (prev (mem s1 ta)))"

definition l_resort :: "registry \<Rightarrow> addr \<Rightarrow> registry option" where
  "l_resort s t =
     (let s1 = l_remove s (Some t);
          s2 = set_hash s1 t (hash (mem s1 t))
      in l_add s2 t)"

subsection \<open>The public operations\<close>

text \<open>\<open>tmr_init\<close>: the clock set-up is outside the model (see \<open>tmr_prepare_timeval\<close>).\<close>

definition tmr_init :: "registry \<Rightarrow> registry" where
  "tmr_init s =
     s\<lparr>timers := (\<lambda>h. if h < HASH_SIZE then None else timers s h),
       free_timers := None,
       alloc_count := 0, active_count := 0, free_count := 0\<rparr>"

text \<open>
  \<open>tmr_prepare_timeval\<close> fills \<open>*tv\<close> from the clock; when reading the monotonic clock
  fails it returns with \<open>*tv\<close> untouched. The clock reading is an input: \<open>None\<close> for the
  failed read.
\<close>

definition tmr_prepare_timeval :: "timeval option \<Rightarrow> timeval \<Rightarrow> timeval" where
  "tmr_prepare_timeval clock tv = (case clock of None \<Rightarrow> tv | Some c \<Rightarrow> c)"

text \<open>
  \<open>tmr_create\<close>. The result is \<open>None\<close> if the call does not return, otherwise the
  returned pointer (\<open>None\<close> for \<open>NULL\<close>) and the new state.
\<close>

definition tmr_create ::
  "registry \<Rightarrow> addr option \<Rightarrow> timeval option \<Rightarrow> timeval option \<Rightarrow> nat \<Rightarrow> int \<Rightarrow> int \<Rightarrow> int
     \<Rightarrow> (addr option \<times> registry) option" where
  "tmr_create s malloc_result now clock cbv argv ms per =
     (case (case free_timers s of
              Some t \<Rightarrow>
                Some (t, s\<lparr>free_timers := next (mem s t), free_count := free_count s - 1\<rparr>)
            | None \<Rightarrow>
                (case malloc_result of
                   None \<Rightarrow> None
                 | Some t \<Rightarrow> Some (t, s\<lparr>alloc_count := alloc_count s + 1\<rparr>))) of
        None \<Rightarrow> Some (None, s)
      | Some (t, s1) \<Rightarrow>
          let s2 = s1\<lparr>mem := (mem s1)(t := (mem s1 t)
                      \<lparr>cb := cbv, arg := argv, msecs := ms, periodic := per\<rparr>)\<rparr>;
              t0 = (case now of
                      Some n \<Rightarrow> n
                    | None \<Rightarrow> tmr_prepare_timeval clock (time (mem s2 t)));
              s3 = set_time s2 t (tv_add_msecs t0 ms);
              s4 = set_hash s3 t (hash (mem s3 t))
          in case l_add s4 t of
               None \<Rightarrow> None
             | Some s5 \<Rightarrow> Some (Some t, s5\<lparr>active_count := active_count s5 + 1\<rparr>))"

text \<open>
  \<open>tmr_mstimeout\<close>. \<open>INFTIM\<close> comes from a system header and is a parameter here.
  The function writes to its locals only; the state is returned as it was received.
  \<open>ms_until now tv\<close> is the value the loop assigns to \<open>m\<close> for a timer with trigger
  \<open>tv\<close>: \<open>(tv.tv_sec - now->tv_sec) * 1000L + (tv.tv_usec - now->tv_usec) / 1000L\<close>.
\<close>

definition ms_until :: "timeval \<Rightarrow> timeval \<Rightarrow> int" where
  "ms_until now tv =
     (tv_sec tv - tv_sec now) * 1000 + (tv_usec tv - tv_usec now) sdiv 1000"

definition mstimeout_step :: "registry \<Rightarrow> timeval \<Rightarrow> nat \<Rightarrow> bool \<times> int \<Rightarrow> bool \<times> int" where
  "mstimeout_step s now h gm =
     (case timers s h of
        None \<Rightarrow> gm
      | Some t \<Rightarrow>
          let m = ms_until now (time (mem s t))
          in if \<not> fst gm then (True, m)
             else if m < snd gm then (fst gm, m)
             else gm)"

definition tmr_mstimeout :: "int \<Rightarrow> registry \<Rightarrow> timeval \<Rightarrow> int \<times> registry" where
  "tmr_mstimeout inftim s now =
     (let gm = fold (mstimeout_step s now) [0..<HASH_SIZE] (False, 0) in
      if \<not> fst gm then (inftim, s)
      else if snd gm \<le> 0 then (500, s)
      else (snd gm, s))"

text \<open>\<open>tmr_timeout\<close>: \<open>None\<close> is the \<open>NULL\<close> result, otherwise the static \<open>timeout\<close>.\<close>

definition tmr_timeout :: "int \<Rightarrow> registry \<Rightarrow> timeval \<Rightarrow> timeval option" where
  "tmr_timeout inftim s now =
     (let ms = fst (tmr_mstimeout inftim s now) in
      if ms = inftim then None
      else Some \<lparr>tv_sec = ms sdiv 1000, tv_usec = (ms smod 1000) * 1000\<rparr>)"

definition tmr_cancel :: "registry \<Rightarrow> addr option \<Rightarrow> registry" where
  "tmr_cancel s t =
     (case t of
        None \<Rightarrow> s
      | Some ta \<Rightarrow>
          let s1 = l_remove s (Some ta);
              s2 = s1\<lparr>active_count := active_count s1 - 1\<rparr>;
              s3 = set_prev s2 ta None;
              s4 = set_next s3 ta (free_timers s3);
              s5 = s4\<lparr>free_timers := Some ta\<rparr>
          in s5\<lparr>free_count := free_count s5 + 1\<rparr>)"

text \<open>
  The body of the inner loop of \<open>tmr_run\<close> for a timer that is due: the callback is
  invoked, then a periodic timer is rescheduled relative to its old trigger and moved by
  \<open>l_resort\<close>, and any other timer is cancelled.
\<close>

definition tmr_run_fire :: "registry \<Rightarrow> timeval \<Rightarrow> addr \<Rightarrow> registry option" where
  "tmr_run_fire s now t =
     (let s1 = s\<lparr>calls := calls s @ [(t, cb (mem s t), arg (mem s t), now)]\<rparr> in
      if periodic (mem s1 t) \<noteq> 0
      then l_resort (set_time s1 t (tv_add_msecs (time (mem s1 t)) (msecs (mem s1 t)))) t
      else Some (tmr_cancel s1 (Some t)))"

text \<open>
  The inner loop of \<open>tmr_run\<close> over one list: \<open>for (t = timers[h]; t; t = next)\<close>.
  \<open>next\<close> is read before the callback runs and before the timer is moved; the loop is
  left at the first timer that is not ready yet.
\<close>

partial_function (option) tmr_run_walk ::
  "registry \<Rightarrow> timeval \<Rightarrow> addr option \<Rightarrow> registry option" where
  "tmr_run_walk s now t =
     (case t of
        None \<Rightarrow> Some s
      | Some ta \<Rightarrow>
          let nxt = next (mem s ta) in
          if tv_gt (time (mem s ta)) now then Some s
          else (case tmr_run_fire s now ta of
                  None \<Rightarrow> None
                | Some s1 \<Rightarrow> tmr_run_walk s1 now nxt))"

declare tmr_run_walk.simps [code]

text \<open>
  One round of the outer loop \<open>for (h = 0; h < HASH_SIZE; ++h)\<close>: the walk of list \<open>h\<close>,
  unless an earlier round did not return.
\<close>

definition tmr_run_bucket :: "timeval \<Rightarrow> nat \<Rightarrow> registry option \<Rightarrow> registry option" where
  "tmr_run_bucket now h r =
     (case r of None \<Rightarrow> None | Some s \<Rightarrow> tmr_run_walk s now (timers s h))"

definition tmr_run :: "registry \<Rightarrow> timeval \<Rightarrow> registry option" where
  "tmr_run s now = fold (tmr_run_bucket now) [0..<HASH_SIZE] (Some s)"

definition tmr_reset :: "registry \<Rightarrow> timeval \<Rightarrow> addr option \<Rightarrow> registry option" where
  "tmr_reset s now t =
     (case t of
        None \<Rightarrow> Some s
      | Some ta \<Rightarrow> l_resort (set_time s ta (tv_add_msecs now (msecs (mem s ta)))) ta)"

partial_function (option) tmr_cleanup :: "registry \<Rightarrow> registry option" where
  "tmr_cleanup s =
     (case free_timers s of
        None \<Rightarrow> Some s
      | Some t \<Rightarrow>
          tmr_cleanup (s\<lparr>free_timers := next (mem s t),
                         free_count := free_count s - 1,
                         alloc_count := alloc_count s - 1\<rparr>))"

declare tmr_cleanup.simps [code]

text \<open>The loop \<open>while (timers[h]) tmr_cancel(timers[h])\<close> of \<open>tmr_destroy\<close>.\<close>

partial_function (option) tmr_destroy_bucket :: "registry \<Rightarrow> nat \<Rightarrow> registry option" where
  "tmr_destroy_bucket s h =
     (case timers s h of
        None \<Rightarrow> Some s
      | Some t \<Rightarrow> tmr_destroy_bucket (tmr_cancel s (Some t)) h)"

declare tmr_destroy_bucket.simps [code]

definition tmr_destroy_step :: "nat \<Rightarrow> registry option \<Rightarrow> registry option" where
  "tmr_destroy_step h r = (case r of None \<Rightarrow> None | Some s \<Rightarrow> tmr_destroy_bucket s h)"

definition tmr_destroy :: "registry \<Rightarrow> registry option" where
  "tmr_destroy s =
     (case fold tmr_destroy_step [0..<HASH_SIZE] (Some s) of
        None \<Rightarrow> None
      | Some s' \<Rightarrow> tmr_cleanup s')"

text \<open>\<open>tmr_logstats\<close> reports an error exactly when the counters do not add up.\<close>

definition tmr_logstats_error :: "registry \<Rightarrow> bool" where
  "tmr_logstats_error s \<longleftrightarrow> active_count s + free_count s \<noteq> alloc_count s"


subsection \<open>Sequences of operations and scenarios\<close>

text \<open>
  One call of the public interface. \<open>Create\<close> carries the result of \<open>malloc\<close>, the \<open>now\<close>
  pointer, the clock reading, the callback, its argument, the delay and the periodic flag.
\<close>

datatype tmr_op =
    Create "addr option" "timeval option" "timeval option" nat int int int
  | Cancel "addr option"
  | Reset timeval "addr option"
  | Run timeval
  | Cleanup
  | Destroy

fun exec_op :: "registry \<Rightarrow> tmr_op \<Rightarrow> registry option" where
  "exec_op s (Create m now clk c g ms per) = map_option snd (tmr_create s m now clk c g ms per)"
| "exec_op s (Cancel t) = Some (tmr_cancel s t)"
| "exec_op s (Reset now t) = tmr_reset s now t"
| "exec_op s (Run now) = tmr_run s now"
| "exec_op s Cleanup = tmr_cleanup s"
| "exec_op s Destroy = tmr_destroy s"

text \<open>
  The states between the operations of a sequence: the state before the first call and
  the state after each call that returns.
\<close>

fun run_ops :: "registry \<Rightarrow> tmr_op list \<Rightarrow> registry list" where
  "run_ops s [] = [s]"
| "run_ops s (x # xs) = s # (case exec_op s x of None \<Rightarrow> [] | Some s' \<Rightarrow> run_ops s' xs)"

definition counts :: "registry \<Rightarrow> int \<times> int \<times> int" where
  "counts s = (alloc_count s, active_count s, free_count s)"

definition counts_ok :: "registry \<Rightarrow> bool" where
  "counts_ok s \<longleftrightarrow> alloc_count s = active_count s + free_count s"

text \<open>\<open>tmr_create\<close> with a \<open>now\<close> argument, followed by one \<open>tmr_run\<close>.\<close>

definition create_then_run ::
  "registry \<Rightarrow> addr option \<Rightarrow> timeval \<Rightarrow> nat \<Rightarrow> int \<Rightarrow> int \<Rightarrow> int \<Rightarrow> timeval \<Rightarrow> registry option" where
  "create_then_run s m t0 c a ms per now =
     (case tmr_create s m (Some t0) None c a ms per of
        None \<Rightarrow> None
      | Some (r, s1) \<Rightarrow> tmr_run s1 now)"

text \<open>A \<open>struct timeval\<close> in normal form, and the instant it denotes in microseconds.\<close>

definition tv_normal :: "timeval \<Rightarrow> bool" where
  "tv_normal tv \<longleftrightarrow> 0 \<le> tv_usec tv \<and> tv_usec tv < 1000000"

definition tv_usecs :: "timeval \<Rightarrow> int" where
  "tv_usecs tv = tv_sec tv * 1000000 + tv_usec tv"

text \<open>A concrete store, all zero, for closed examples.\<close>

definition null_timer :: timer where
  "null_timer = \<lparr>cb = 0, arg = 0, msecs = 0, periodic = 0,
                  time = \<lparr>tv_sec = 0, tv_usec = 0\<rparr>, prev = None, next = None,
                  hash_field = 0\<rparr>"

definition reg0 :: registry where
  "reg0 = \<lparr>timers = (\<lambda>_. None), free_timers = None, alloc_count = 0, active_count = 0,
            free_count = 0, mem = (\<lambda>_. null_timer), calls = []\<rparr>"

text \<open>
  A sequence of calls for a closed example: two timers are created (one \<open>malloc\<close> fails
  in between), the one-shot timer fires, the periodic one is reset and cancelled, and
  the free list is released.
\<close>

definition demo_ops :: "tmr_op list" where
  "demo_ops =
     [Create (Some 1) (Some \<lparr>tv_sec = 0, tv_usec = 0\<rparr>) None 7 9 1000 0,
      Create None (Some \<lparr>tv_sec = 0, tv_usec = 0\<rparr>) None 7 9 1000 0,
      Create (Some 2) (Some \<lparr>tv_sec = 0, tv_usec = 0\<rparr>) None 7 9 500 1,
      Run \<lparr>tv_sec = 1, tv_usec = 0\<rparr>,
      Reset \<lparr>tv_sec = 1, tv_usec = 0\<rparr> (Some 2),
      Cancel (Some 2),
      Cleanup]"

subsection \<open>Well-formed registries\<close>

text \<open>
  The lists of the store as values. \<open>dll m pv p xs\<close>: following \<open>next\<close> from pointer \<open>p\<close>
  visits exactly the records \<open>xs\<close> and ends at \<open>NULL\<close>, and every \<open>prev\<close> points back
  (\<open>pv\<close> is what the first record's \<open>prev\<close> must be). \<open>sll\<close> is the same for the free list,
  which uses \<open>next\<close> only.
\<close>

fun dll :: "(addr \<Rightarrow> timer) \<Rightarrow> addr option \<Rightarrow> addr option \<Rightarrow> addr list \<Rightarrow> bool" where
  "dll m pv p [] \<longleftrightarrow> p = None"
| "dll m pv p (x # xs) \<longleftrightarrow> p = Some x \<and> prev (m x) = pv \<and> dll m (Some x) (next (m x)) xs"

fun sll :: "(addr \<Rightarrow> timer) \<Rightarrow> addr option \<Rightarrow> addr list \<Rightarrow> bool" where
  "sll m p [] \<longleftrightarrow> p = None"
| "sll m p (x # xs) \<longleftrightarrow> p = Some x \<and> sll m (next (m x)) xs"

text \<open>
  Insertion as the specification words it: the new entry stands immediately before the
  first existing entry whose trigger is not earlier than the new trigger, and at the end
  when there is none. \<open>tm\<close> gives the trigger of a record.
\<close>

definition l_ins :: "(addr \<Rightarrow> timeval) \<Rightarrow> addr \<Rightarrow> addr list \<Rightarrow> addr list" where
  "l_ins tm t xs = takeWhile (\<lambda>x. \<not> tv_le (tm t) (tm x)) xs @ t # dropWhile (\<lambda>x. \<not> tv_le (tm t) (tm x)) xs"

text \<open>The trigger time of the record at an address.\<close>

definition trig :: "registry \<Rightarrow> addr \<Rightarrow> timeval" where
  "trig s x = time (mem s x)"

text \<open>
  The fields of a record other than its links, and the parts of the state that the list
  operations leave alone.
\<close>

definition payload :: "timer \<Rightarrow> nat \<times> int \<times> int \<times> int \<times> timeval \<times> nat" where
  "payload t = (cb t, arg t, msecs t, periodic t, time t, hash_field t)"

definition same_frame :: "registry \<Rightarrow> registry \<Rightarrow> bool" where
  "same_frame s' s \<longleftrightarrow> free_timers s' = free_timers s \<and> counts s' = counts s \<and> calls s' = calls s
      \<and> (\<forall>x. payload (mem s' x) = payload (mem s x))"

text \<open>
  The invariant of the registry, relative to the contents \<open>bs h\<close> of each list and \<open>fl\<close> of
  the free list: list \<open>h\<close> is a well-linked list of distinct records that all carry the
  index \<open>h\<close>, which is the hash of their trigger, in ascending order of trigger; the free
  list is a well-linked list of distinct records, disjoint from every active list, and
  \<open>free_count\<close> is its length.
\<close>

definition bucket_ok :: "registry \<Rightarrow> nat \<Rightarrow> addr list \<Rightarrow> bool" where
  "bucket_ok s h xs \<longleftrightarrow>
     dll (mem s) None (timers s h) xs \<and> distinct xs
     \<and> (\<forall>x\<in>set xs. hash_field (mem s x) = h \<and> hash (mem s x) = h)
     \<and> sorted_wrt (\<lambda>x y. tv_le (trig s x) (trig s y)) xs"

definition reg_inv :: "registry \<Rightarrow> (nat \<Rightarrow> addr list) \<Rightarrow> addr list \<Rightarrow> bool" where
  "reg_inv s bs fl \<longleftrightarrow>
     (\<forall>h<HASH_SIZE. bucket_ok s h (bs h))
     \<and> sll (mem s) (free_timers s) fl \<and> distinct fl
     \<and> (\<forall>h<HASH_SIZE. set (bs h) \<inter> set fl = {})
     \<and> free_count s = int (length fl)"

text \<open>A record that is on no list.\<close>

definition detached :: "(nat \<Rightarrow> addr list) \<Rightarrow> addr list \<Rightarrow> addr \<Rightarrow> bool" where
  "detached bs fl t \<longleftrightarrow> (\<forall>h<HASH_SIZE. t \<notin> set (bs h)) \<and> t \<notin> set fl"


text \<open>All active timers, and the values \<open>m\<close> that \<open>tmr_mstimeout\<close> computes for the list heads.\<close>

definition active :: "(nat \<Rightarrow> addr list) \<Rightarrow> addr list" where
  "active bs = concat (map bs [0..<HASH_SIZE])"

definition heads_ms :: "registry \<Rightarrow> timeval \<Rightarrow> nat list \<Rightarrow> int set" where
  "heads_ms s now hs = {ms_until now (trig s x) | x h. h \<in> set hs \<and> timers s h = Some x}"

text \<open>
  Concrete registries for closed examples: \<open>reg1\<close> is the initial registry after
  \<open>tmr_create\<close> of a one-shot timer at address 5 with delay 2000 ms at time (0 s, 500 us);
  \<open>reg_free1\<close> holds one record on the free list.
\<close>

definition reg1 :: registry where
  "reg1 = reg0\<lparr>timers := (\<lambda>h. if h = 33 then Some 5 else None),
              alloc_count := 1, active_count := 1,
              mem := (\<lambda>_. null_timer)(5 := null_timer\<lparr>msecs := 2000,
                       time := \<lparr>tv_sec = 2, tv_usec = 500\<rparr>, hash_field := 33\<rparr>)\<rparr>"

definition bs1 :: "nat \<Rightarrow> addr list" where
  "bs1 = (\<lambda>_. [])(33 := [5])"

definition reg_free1 :: registry where
  "reg_free1 = reg0\<lparr>free_timers := Some 5, alloc_count := 1, free_count := 1\<rparr>"

text \<open>The trigger time \<open>tmr_create\<close> gives to the record \<open>t\<close>.\<close>

definition create_time :: "registry \<Rightarrow> addr \<Rightarrow> timeval option \<Rightarrow> timeval option \<Rightarrow> int \<Rightarrow> timeval" where
  "create_time s t now clk ms =
     tv_add_msecs (case now of Some n \<Rightarrow> n | None \<Rightarrow> tmr_prepare_timeval clk (time (mem s t))) ms"

text \<open>
  The pointer to a list with the given contents: its first record, or \<open>NULL\<close>.
\<close>

definition list_head :: "addr list \<Rightarrow> addr option" where
  "list_head xs = (case xs of [] \<Rightarrow> None | x # _ \<Rightarrow> Some x)"












text \<open>
  The range of \<open>long\<close> (64 bits). \<open>add_fits tv ms\<close>: the block that adds \<open>ms\<close> milliseconds
  to \<open>tv\<close> computes no value outside that range, so that the C code and \<open>tv_add_msecs\<close>
  agree.
\<close>

definition long_ok :: "int \<Rightarrow> bool" where
  "long_ok x \<longleftrightarrow> - (2 ^ 63) \<le> x \<and> x < 2 ^ 63"



text \<open>
  \<open>ms_fits now tv\<close>: the expression that \<open>tmr_mstimeout\<close> evaluates for a timer with
  trigger \<open>tv\<close> computes no value outside the range of \<open>long\<close>, so that the C code and
  \<open>ms_until\<close> agree.
\<close>

definition ms_fits :: "timeval \<Rightarrow> timeval \<Rightarrow> bool" where
  "ms_fits now tv \<longleftrightarrow>
     long_ok (tv_sec tv - tv_sec now) \<and> long_ok ((tv_sec tv - tv_sec now) * 1000)
     \<and> long_ok (tv_usec tv - tv_usec now) \<and> long_ok (ms_until now tv)"

text \<open>
  \<open>reg2a\<close> is the initial registry after \<open>tmr_create\<close> at time (10 s, 0 us) with delay
  \<open>- 2500\<close> ms (record 5); \<open>reg2\<close> is \<open>reg2a\<close> after \<open>tmr_create\<close> at time (7 s, 900001 us)
  with delay 0 (record 6). Both timers are on list 62, which is \<open>bs2\<close>.
\<close>

definition reg2a :: registry where
  "reg2a = reg0\<lparr>timers := (\<lambda>h. if h = 62 then Some 5 else None),
              alloc_count := 1, active_count := 1,
              mem := (\<lambda>_. null_timer)(5 := null_timer\<lparr>cb := 7, arg := 9, msecs := - 2500,
                       time := \<lparr>tv_sec = 8, tv_usec = - 500000\<rparr>, hash_field := 62\<rparr>)\<rparr>"

definition reg2 :: registry where
  "reg2 = reg0\<lparr>timers := (\<lambda>h. if h = 62 then Some 6 else None),
              alloc_count := 2, active_count := 2,
              mem := (\<lambda>_. null_timer)
                (5 := null_timer\<lparr>cb := 7, arg := 9, msecs := - 2500,
                       time := \<lparr>tv_sec = 8, tv_usec = - 500000\<rparr>, prev := Some 6,
                       hash_field := 62\<rparr>,
                 6 := null_timer\<lparr>cb := 7, arg := 9,
                       time := \<lparr>tv_sec = 7, tv_usec = 900001\<rparr>, next := Some 5,
                       hash_field := 62\<rparr>)\<rparr>"

definition bs2 :: "nat \<Rightarrow> addr list" where
  "bs2 = (\<lambda>_. [])(62 := [6, 5])"

section \<open>Basic facts\<close>

lemma upt67: "[0..<67] = 0 # 1 # [2..<67]"
  by (simp add: upt_rec)

lemmas store_defs = set_bucket_def set_next_def set_prev_def set_time_def set_hash_def

lemmas eval_defs =
  create_then_run_def tmr_create_def tmr_init_def l_add_def l_resort_def l_remove_def
  store_defs hash_def HASH_SIZE_def tv_add_msecs_def tmr_run_def tmr_run_bucket_def upt67
  tmr_run_walk.simps tmr_run_fire_def tv_gt_def tv_le_def Let_def signed_divide_int_def
  signed_modulo_int_def tmr_cancel_def

lemma hash_less: "hash t < HASH_SIZE"
  by (simp add: hash_def HASH_SIZE_def)

lemma tv_gt_irrefl: "\<not> tv_gt a a"
  by (simp add: tv_gt_def)

lemma tv_normal_sec: "tv_normal a \<Longrightarrow> tv_sec a = tv_usecs a div 1000000"
  by (simp add: tv_normal_def tv_usecs_def)

lemma tv_normal_usec: "tv_normal a \<Longrightarrow> tv_usec a = tv_usecs a mod 1000000"
  by (simp add: tv_normal_def tv_usecs_def)

lemma tv_normal_unique:
  assumes "tv_normal a" "tv_normal b" "tv_usecs a = tv_usecs b"
  shows "a = b"
proof -
  have "tv_sec a = tv_sec b" "tv_usec a = tv_usec b"
    using assms tv_normal_sec tv_normal_usec by simp_all
  then show ?thesis by simp
qed

lemma tv_add_msecs_exact:
  assumes "0 \<le> d" "tv_normal t0"
  shows "tv_normal (tv_add_msecs t0 d) \<and> tv_usecs (tv_add_msecs t0 d) = tv_usecs t0 + d * 1000"
proof -
  define q r where "q = d div 1000" and "r = d mod 1000"
  have d: "d = q * 1000 + r" and r: "0 \<le> r" "r < 1000"
    by (simp_all add: q_def r_def)
  have d1: "d sdiv 1000 = q" "d smod 1000 = r"
    using assms(1)
    by (simp_all add: signed_divide_int_def signed_modulo_int_def sgn_if q_def r_def)
  let ?u = "tv_usec t0 + r * 1000"
  have u: "0 \<le> ?u" "?u < 2000000" using assms(2) r by (auto simp: tv_normal_def)
  have u1: "?u sdiv 1000000 = ?u div 1000000" "?u smod 1000000 = ?u mod 1000000"
    using u by (simp_all add: signed_divide_int_def signed_modulo_int_def sgn_if)
  show ?thesis
  proof (cases "?u \<ge> 1000000")
    case True
    then have "?u div 1000000 = 1" "?u mod 1000000 = ?u - 1000000"
      using u by (simp_all add: int_div_pos_eq int_mod_pos_eq)
    with True u show ?thesis
      unfolding tv_add_msecs_def Let_def d1 u1 tv_normal_def tv_usecs_def
      by (simp add: d)
  next
    case False
    with u show ?thesis
      unfolding tv_add_msecs_def Let_def d1 u1 tv_normal_def tv_usecs_def
      by (simp add: d)
  qed
qed

subsection \<open>The counters\<close>

lemma counts_set [simp]:
  "counts (set_bucket s h p) = counts s"
  "counts (set_next s a p) = counts s"
  "counts (set_prev s a p) = counts s"
  "counts (set_time s a tv) = counts s"
  "counts (set_hash s a k) = counts s"
  by (simp_all add: counts_def store_defs)

lemma counts_ok_cong: "counts s' = counts s \<Longrightarrow> counts_ok s' = counts_ok s"
  by (simp add: counts_ok_def counts_def)

lemma counts_l_add_walk:
  assumes "l_add_walk s t t2 p = Some s'"
  shows "counts s' = counts s"
  by (rule l_add_walk.raw_induct[where P = "\<lambda>s t t2 p s'. counts s' = counts s", OF _ assms])
     (auto split: option.splits if_splits)

lemma counts_l_add: "l_add s t = Some s' \<Longrightarrow> counts s' = counts s"
  by (auto simp: l_add_def Let_def counts_l_add_walk split: option.splits if_splits)

lemma counts_l_remove [simp]: "counts (l_remove s t) = counts s"
  by (simp add: l_remove_def Let_def split: option.splits)

lemma counts_l_resort: "l_resort s t = Some s' \<Longrightarrow> counts s' = counts s"
  by (auto simp: l_resort_def Let_def dest!: counts_l_add)

lemma counts_ok_cancel:
  assumes ok: "counts_ok s"
  shows "counts_ok (tmr_cancel s t)"
proof (cases t)
  case None with ok show ?thesis by (simp add: tmr_cancel_def)
next
  case (Some ta)
  have "counts (l_remove s (Some ta)) = counts s" by simp
  with ok show ?thesis
    by (simp add: Some tmr_cancel_def Let_def counts_ok_def counts_def set_prev_def set_next_def)
qed

lemma counts_ok_create:
  assumes "tmr_create s m now clk c g ms per = Some (r, s')" "counts_ok s"
  shows "counts_ok s'"
  using assms
  by (auto simp: tmr_create_def Let_def counts_ok_def counts_def set_time_def set_hash_def
       split: option.splits dest!: counts_l_add)

lemma counts_ok_run_fire:
  assumes "tmr_run_fire s now t = Some s'" "counts_ok s"
  shows "counts_ok s'"
proof -
  let ?s1 = "s\<lparr>calls := calls s @ [(t, cb (mem s t), arg (mem s t), now)]\<rparr>"
  have ok1: "counts_ok ?s1" using assms(2) by (simp add: counts_ok_def)
  show ?thesis
  proof (cases "periodic (mem s t) = 0")
    case True
    with assms(1) have "s' = tmr_cancel ?s1 (Some t)"
      by (simp add: tmr_run_fire_def Let_def)
    then show ?thesis using counts_ok_cancel[OF ok1] by simp
  next
    case False
    with assms(1) have
      "l_resort (set_time ?s1 t (tv_add_msecs (time (mem s t)) (msecs (mem s t)))) t = Some s'"
      by (simp add: tmr_run_fire_def Let_def)
    from counts_l_resort[OF this] have "counts s' = counts ?s1" by simp
    with ok1 show ?thesis by (simp add: counts_ok_def counts_def)
  qed
qed

lemma counts_ok_run_walk:
  assumes "tmr_run_walk s now t = Some s'"
  shows "counts_ok s \<longrightarrow> counts_ok s'"
proof (rule tmr_run_walk.raw_induct
         [where P = "\<lambda>s now t s'. counts_ok s \<longrightarrow> counts_ok s'", OF _ assms],
       rule impI, goal_cases)
  case (1 f s now t s')
  show ?case
  proof (cases t)
    case None
    with 1 show ?thesis by simp
  next
    case (Some ta)
    show ?thesis
    proof (cases "tv_gt (time (mem s ta)) now")
      case True
      with 1 Some show ?thesis by (simp add: Let_def)
    next
      case False
      with 1(2) Some obtain s1 where
        r: "tmr_run_fire s now ta = Some s1" and f: "f s1 now (next (mem s ta)) = Some s'"
        by (auto simp: Let_def split: option.splits)
      from counts_ok_run_fire[OF r 1(3)] f 1(1) show ?thesis by blast
    qed
  qed
qed

lemma counts_ok_run_bucket:
  "tmr_run_bucket now h r = Some s' \<Longrightarrow> (\<And>s. r = Some s \<Longrightarrow> counts_ok s) \<Longrightarrow> counts_ok s'"
  by (cases r) (auto simp: tmr_run_bucket_def dest: counts_ok_run_walk)

lemma counts_ok_fold_run:
  "fold (tmr_run_bucket now) hs r = Some s' \<Longrightarrow> (\<And>s. r = Some s \<Longrightarrow> counts_ok s)
     \<Longrightarrow> counts_ok s'"
proof (induction hs arbitrary: r)
  case Nil
  then show ?case by simp
next
  case (Cons h hs)
  show ?case
  proof (rule Cons.IH)
    show "fold (tmr_run_bucket now) hs (tmr_run_bucket now h r) = Some s'"
      using Cons.prems(1) by simp
    show "counts_ok s" if "tmr_run_bucket now h r = Some s" for s
      using counts_ok_run_bucket[OF that] Cons.prems(2) by blast
  qed
qed

lemma counts_ok_run: "tmr_run s now = Some s' \<Longrightarrow> counts_ok s \<Longrightarrow> counts_ok s'"
  unfolding tmr_run_def by (erule counts_ok_fold_run) simp

lemma counts_ok_reset: "tmr_reset s now t = Some s' \<Longrightarrow> counts_ok s \<Longrightarrow> counts_ok s'"
  by (cases t) (auto simp: tmr_reset_def dest!: counts_l_resort dest: counts_ok_cong)

lemma counts_ok_cleanup:
  assumes "tmr_cleanup s = Some s'"
  shows "counts_ok s \<longrightarrow> counts_ok s'"
  by (rule tmr_cleanup.raw_induct[where P = "\<lambda>s s'. counts_ok s \<longrightarrow> counts_ok s'", OF _ assms])
     (auto simp: counts_ok_def split: option.splits)

lemma counts_ok_destroy_bucket:
  assumes "tmr_destroy_bucket s h = Some s'"
  shows "counts_ok s \<longrightarrow> counts_ok s'"
  by (rule tmr_destroy_bucket.raw_induct
        [where P = "\<lambda>s h s'. counts_ok s \<longrightarrow> counts_ok s'", OF _ assms])
     (auto simp: counts_ok_cancel split: option.splits)

lemma counts_ok_fold_destroy:
  "fold tmr_destroy_step hs r = Some s' \<Longrightarrow> (\<And>s. r = Some s \<Longrightarrow> counts_ok s)
     \<Longrightarrow> counts_ok s'"
proof (induction hs arbitrary: r)
  case Nil
  then show ?case by simp
next
  case (Cons h hs)
  show ?case
  proof (rule Cons.IH)
    show "fold tmr_destroy_step hs (tmr_destroy_step h r) = Some s'"
      using Cons.prems(1) by simp
    show "counts_ok s" if "tmr_destroy_step h r = Some s" for s
      using that Cons.prems(2) counts_ok_destroy_bucket
      by (cases r) (auto simp: tmr_destroy_step_def)
  qed
qed

lemma counts_ok_destroy: "tmr_destroy s = Some s' \<Longrightarrow> counts_ok s \<Longrightarrow> counts_ok s'"
  unfolding tmr_destroy_def
  by (auto split: option.splits dest!: counts_ok_fold_destroy dest: counts_ok_cleanup)

lemma counts_ok_exec_op: "exec_op s x = Some s' \<Longrightarrow> counts_ok s \<Longrightarrow> counts_ok s'"
  by (cases x) (auto dest: counts_ok_create counts_ok_reset counts_ok_run counts_ok_cleanup
        counts_ok_destroy simp: counts_ok_cancel)

lemma counts_ok_run_ops: "counts_ok s \<Longrightarrow> s' \<in> set (run_ops s xs) \<Longrightarrow> counts_ok s'"
  by (induction xs arbitrary: s) (auto split: option.splits dest: counts_ok_exec_op[OF sym])

lemma counts_ok_init: "counts_ok (tmr_init s)"
  by (simp add: counts_ok_def tmr_init_def)

subsection \<open>Running over empty lists\<close>

lemma run_bucket_empty:
  "\<forall>k\<in>set ks. timers s k = None \<Longrightarrow> fold (tmr_run_bucket now) ks (Some s) = Some s"
  by (induction ks) (simp_all add: tmr_run_bucket_def tmr_run_walk.simps)

lemma tmr_run_split:
  assumes "h < HASH_SIZE"
  shows "tmr_run s now =
         fold (tmr_run_bucket now) [Suc h..<HASH_SIZE]
           (tmr_run_bucket now h (fold (tmr_run_bucket now) [0..<h] (Some s)))"
proof -
  have "[0..<HASH_SIZE] = [0..<h] @ [h] @ [Suc h..<HASH_SIZE]"
    using assms
    by (metis Suc_leI append_Cons append_Nil le_add_diff_inverse less_imp_le_nat
        upt_add_eq_append upt_rec zero_le)
  then show ?thesis by (simp add: tmr_run_def)
qed

lemma create_init:
  "tmr_create (tmr_init s) (Some a) (Some t0) clk c g ms per =
     Some (Some a, (tmr_init s)\<lparr>
        timers := (timers (tmr_init s))
                    (hash (null_timer\<lparr>time := tv_add_msecs t0 ms\<rparr>) := Some a),
        alloc_count := 1, active_count := 1,
        mem := (mem s)(a := \<lparr>cb = c, arg = g, msecs = ms, periodic = per,
              time = tv_add_msecs t0 ms, prev = None, next = None,
              hash_field = hash (null_timer\<lparr>time := tv_add_msecs t0 ms\<rparr>)\<rparr>)\<rparr>)"
  using hash_less[of "null_timer\<lparr>time := tv_add_msecs t0 ms\<rparr>"]
  apply (simp add: tmr_create_def tmr_init_def l_add_def store_defs Let_def)
  apply (simp add: hash_def null_timer_def)
  apply (cases "mem s a", simp)
  done

lemma run_after_create_oneshot:
  fixes s a t0 c g d
  defines "now \<equiv> tv_add_msecs t0 d"
  defines "h \<equiv> hash (null_timer\<lparr>time := now\<rparr>)"
  shows "create_then_run (tmr_init s) (Some a) t0 c g d 0 now =
     Some ((tmr_init s)\<lparr>
        free_timers := Some a,
        alloc_count := 1, active_count := 0, free_count := 1,
        mem := (mem s)(a := \<lparr>cb = c, arg = g, msecs = d, periodic = 0, time = now,
              prev = None, next = None, hash_field = h\<rparr>),
        calls := calls s @ [(a, c, g, now)]\<rparr>)"
proof -
  have h: "h < HASH_SIZE" unfolding h_def by (rule hash_less)
  let ?s1 = "(tmr_init s)\<lparr>
        timers := (timers (tmr_init s))(h := Some a),
        alloc_count := 1, active_count := 1,
        mem := (mem s)(a := \<lparr>cb = c, arg = g, msecs = d, periodic = 0, time = now,
              prev = None, next = None, hash_field = h\<rparr>)\<rparr>"
  have c: "tmr_create (tmr_init s) (Some a) (Some t0) None c g d 0 = Some (Some a, ?s1)"
    unfolding now_def h_def by (rule create_init)
  have pre: "fold (tmr_run_bucket now) [0..<h] (Some ?s1) = Some ?s1"
    by (rule run_bucket_empty) (use h in \<open>simp add: tmr_init_def\<close>)
  let ?s2 = "(tmr_init s)\<lparr>
        free_timers := Some a,
        alloc_count := 1, active_count := 0, free_count := 1,
        mem := (mem s)(a := \<lparr>cb = c, arg = g, msecs = d, periodic = 0, time = now,
              prev = None, next = None, hash_field = h\<rparr>),
        calls := calls s @ [(a, c, g, now)]\<rparr>"
  have e: "(\<lambda>k. if k < HASH_SIZE then None else timers s k)(h := None) =
           (\<lambda>k. if k < HASH_SIZE then None else timers s k)"
    using h by (auto simp: fun_eq_iff)
  have w: "tmr_run_bucket now h (Some ?s1) = Some ?s2"
    apply (simp add: tmr_run_bucket_def tmr_run_walk.simps[of _ _ "Some a"] tv_gt_irrefl Let_def)
    apply (simp add: tmr_run_walk.simps[of _ _ None] tmr_run_fire_def tmr_cancel_def
             l_remove_def store_defs Let_def tmr_init_def)
    apply (simp add: e)
    done
  have post: "fold (tmr_run_bucket now) [Suc h..<HASH_SIZE] (Some ?s2) = Some ?s2"
    by (rule run_bucket_empty) (simp add: tmr_init_def)
  show ?thesis
    unfolding create_then_run_def c
    by (simp add: tmr_run_split[OF h] pre w post)
qed

lemma periodic_100_at_250:
  "per \<noteq> 0 \<Longrightarrow>
   \<exists>s2. create_then_run (tmr_init s) (Some a) \<lparr>tv_sec = 0, tv_usec = 0\<rparr> c g 100 per
           \<lparr>tv_sec = 0, tv_usec = 250000\<rparr> = Some s2
     \<and> calls s2 = calls s @ [(a, c, g, \<lparr>tv_sec = 0, tv_usec = 250000\<rparr>)]
     \<and> time (mem s2 a) = \<lparr>tv_sec = 0, tv_usec = 200000\<rparr>
     \<and> timers s2 5 = Some a \<and> hash_field (mem s2 a) = 5
     \<and> (\<exists>s3. tmr_run s2 \<lparr>tv_sec = 0, tv_usec = 250000\<rparr> = Some s3
           \<and> calls s3 = calls s @ [(a, c, g, \<lparr>tv_sec = 0, tv_usec = 250000\<rparr>),
                                    (a, c, g, \<lparr>tv_sec = 0, tv_usec = 250000\<rparr>)]
           \<and> time (mem s3 a) = \<lparr>tv_sec = 0, tv_usec = 300000\<rparr>)"
  by (simp add: eval_defs)

lemma l_ins_simps [simp]:
  "l_ins tm t [] = [t]"
  "l_ins tm t (x # xs) = (if tv_le (tm t) (tm x) then t # x # xs else x # l_ins tm t xs)"
  by (simp_all add: l_ins_def)

lemma dll_frame:
  "dll m pv p xs \<Longrightarrow> \<forall>x\<in>set xs. prev (m' x) = prev (m x) \<and> next (m' x) = next (m x) \<Longrightarrow> dll m' pv p xs"
  by (induction xs arbitrary: pv p) auto

lemma sll_frame:
  "sll m p xs \<Longrightarrow> \<forall>x\<in>set xs. next (m' x) = next (m x) \<Longrightarrow> sll m' p xs"
  by (induction xs arbitrary: p) auto

lemma l_add_walk_spec:
  assumes "dll (mem s) (Some p) t2 zs" "distinct (p # zs)" "t \<notin> set (p # zs)"
    and "next (mem s p) = t2"
  shows "\<exists>s'. l_add_walk s t t2 p = Some s'
           \<and> dll (mem s') (Some p) (next (mem s' p)) (l_ins (trig s) t zs)
           \<and> prev (mem s' p) = prev (mem s p)
           \<and> (\<forall>x. x \<notin> set (p # zs) \<and> x \<noteq> t \<longrightarrow> mem s' x = mem s x)
           \<and> timers s' = timers s \<and> same_frame s' s"
  using assms
proof (induction zs arbitrary: p t2)
  case Nil
  then show ?case
    by (simp add: l_add_walk.simps store_defs same_frame_def counts_def payload_def)
next
  case (Cons z zs)
  from Cons.prems(1) have t2: "t2 = Some z" and pz: "prev (mem s z) = Some p"
    and d: "dll (mem s) (Some z) (next (mem s z)) zs" by simp_all
  show ?case
  proof (cases "tv_le (trig s t) (trig s z)")
    case True
    let ?s' = "set_prev (set_next (set_prev (set_next s p (Some t)) t (Some p)) t (Some z)) z (Some t)"
    have w: "l_add_walk s t t2 p = Some ?s'"
      unfolding t2 using True by (simp add: l_add_walk.simps[of s t "Some z"] trig_def)
    have "dll (mem ?s') (Some z) (next (mem s z)) zs"
      using Cons.prems(2,3) by (intro dll_frame[OF d]) (auto simp: store_defs)
    then have "dll (mem ?s') (Some p) (next (mem ?s' p)) (t # z # zs)"
      using Cons.prems(2,3) by (auto simp: store_defs)
    moreover have "prev (mem ?s' p) = prev (mem s p)"
      using Cons.prems(2,3) by (auto simp: store_defs)
    moreover have "\<forall>x. x \<notin> set (p # z # zs) \<and> x \<noteq> t \<longrightarrow> mem ?s' x = mem s x"
      by (auto simp: store_defs)
    moreover have "timers ?s' = timers s \<and> same_frame ?s' s"
      by (auto simp: store_defs same_frame_def counts_def payload_def)
    ultimately show ?thesis using w True by simp
  next
    case False
    have w: "l_add_walk s t t2 p = l_add_walk s t (next (mem s z)) z"
      unfolding t2 using False by (simp add: l_add_walk.simps[of s t "Some z"] trig_def)
    from Cons.prems(2,3) have "distinct (z # zs)" "t \<notin> set (z # zs)" by auto
    from Cons.IH[OF d this refl] obtain s' where
      s': "l_add_walk s t (next (mem s z)) z = Some s'"
      "dll (mem s') (Some z) (next (mem s' z)) (l_ins (trig s) t zs)"
      "prev (mem s' z) = prev (mem s z)"
      "\<forall>x. x \<notin> set (z # zs) \<and> x \<noteq> t \<longrightarrow> mem s' x = mem s x"
      "timers s' = timers s" "same_frame s' s"
      by blast
    have p: "mem s' p = mem s p" using s'(4) Cons.prems(2,3) by auto
    have "dll (mem s') (Some p) (next (mem s' p)) (z # l_ins (trig s) t zs)"
      using s'(2,3) pz p Cons.prems(4) t2 by simp
    moreover have "\<forall>x. x \<notin> set (p # z # zs) \<and> x \<noteq> t \<longrightarrow> mem s' x = mem s x"
      using s'(4) by auto
    ultimately show ?thesis using w s' p False by simp
  qed
qed

lemma l_ins_set [simp]: "set (l_ins tm t xs) = insert t (set xs)"
  by (induction xs) auto

lemma l_ins_distinct: "distinct xs \<Longrightarrow> t \<notin> set xs \<Longrightarrow> distinct (l_ins tm t xs)"
  by (induction xs) auto

lemma l_add_spec:
  assumes "dll (mem s) None (timers s h) xs" "distinct xs" "t \<notin> set xs"
    and "hash_field (mem s t) = h"
  shows "\<exists>s'. l_add s t = Some s'
           \<and> dll (mem s') None (timers s' h) (l_ins (trig s) t xs)
           \<and> (\<forall>x. x \<notin> set xs \<and> x \<noteq> t \<longrightarrow> mem s' x = mem s x)
           \<and> (\<forall>k. k \<noteq> h \<longrightarrow> timers s' k = timers s k) \<and> same_frame s' s"
proof (cases xs)
  case Nil
  with assms show ?thesis
    by (simp add: l_add_def store_defs same_frame_def counts_def payload_def)
next
  case (Cons z zs)
  with assms(1) have hd: "timers s h = Some z" and pz: "prev (mem s z) = None"
    and d: "dll (mem s) (Some z) (next (mem s z)) zs" by simp_all
  show ?thesis
  proof (cases "tv_le (trig s t) (trig s z)")
    case True
    let ?s' = "set_prev (set_next (set_prev (set_bucket s h (Some t)) t None) t (Some z)) z (Some t)"
    have w: "l_add s t = Some ?s'"
      using True by (simp add: l_add_def assms(4) hd trig_def)
    have "dll (mem ?s') (Some z) (next (mem s z)) zs"
      using assms(2,3) Cons by (intro dll_frame[OF d]) (auto simp: store_defs)
    then have "dll (mem ?s') None (timers ?s' h) (t # z # zs)"
      using assms(2,3) Cons by (auto simp: store_defs)
    moreover have "\<forall>x. x \<notin> set xs \<and> x \<noteq> t \<longrightarrow> mem ?s' x = mem s x"
      using Cons by (auto simp: store_defs)
    moreover have "(\<forall>k. k \<noteq> h \<longrightarrow> timers ?s' k = timers s k) \<and> same_frame ?s' s"
      by (auto simp: store_defs same_frame_def counts_def payload_def)
    ultimately show ?thesis using w True Cons by simp
  next
    case False
    have w: "l_add s t = l_add_walk s t (next (mem s z)) z"
      using False by (simp add: l_add_def assms(4) hd trig_def)
    from assms(2,3) Cons have "distinct (z # zs)" "t \<notin> set (z # zs)" by auto
    from l_add_walk_spec[OF d this refl] obtain s' where
      s': "l_add_walk s t (next (mem s z)) z = Some s'"
      "dll (mem s') (Some z) (next (mem s' z)) (l_ins (trig s) t zs)"
      "prev (mem s' z) = prev (mem s z)"
      "\<forall>x. x \<notin> set (z # zs) \<and> x \<noteq> t \<longrightarrow> mem s' x = mem s x"
      "timers s' = timers s" "same_frame s' s"
      by blast
    have "dll (mem s') None (timers s' h) (z # l_ins (trig s) t zs)"
      using s'(2,3,5) pz hd by simp
    then show ?thesis using w s' False Cons by simp
  qed
qed


lemma dll_head: "dll m pv p xs \<Longrightarrow> p = (case xs of [] \<Rightarrow> None | x # _ \<Rightarrow> Some x)"
  by (cases xs) auto



lemma tv_le_refl [simp]: "tv_le a a"
  by (simp add: tv_le_def)

lemma tv_le_trans: "tv_le a b \<Longrightarrow> tv_le b c \<Longrightarrow> tv_le a c"
  by (auto simp: tv_le_def)

lemma tv_le_total: "\<not> tv_le a b \<Longrightarrow> tv_le b a"
  by (auto simp: tv_le_def)


lemma sorted_l_ins:
  "sorted_wrt (\<lambda>x y. tv_le (tm x) (tm y)) xs \<Longrightarrow>
   sorted_wrt (\<lambda>x y. tv_le (tm x) (tm y)) (l_ins tm t xs)"
proof (induction xs)
  case Nil
  then show ?case by simp
next
  case (Cons x xs)
  show ?case
  proof (cases "tv_le (tm t) (tm x)")
    case True
    with Cons.prems show ?thesis by (auto intro: tv_le_trans)
  next
    case False
    with Cons show ?thesis by (auto dest: tv_le_total)
  qed
qed

lemma same_frame_payload: "same_frame s' s \<Longrightarrow> payload (mem s' x) = payload (mem s x)"
  by (simp add: same_frame_def)

lemma payload_eqD:
  assumes "payload a = payload b"
  shows "time a = time b" "hash_field a = hash_field b" "hash a = hash b"
    "cb a = cb b" "arg a = arg b" "msecs a = msecs b" "periodic a = periodic b"
  using assms by (simp_all add: payload_def hash_def)

lemma bucket_ok_frame:
  assumes "bucket_ok s h xs" "timers s' h = timers s h"
    and "\<forall>x\<in>set xs. mem s' x = mem s x"
  shows "bucket_ok s' h xs"
proof -
  have "dll (mem s') None (timers s' h) xs"
    using assms by (auto simp: bucket_ok_def intro: dll_frame)
  moreover have "sorted_wrt (\<lambda>x y. tv_le (trig s' x) (trig s' y)) xs"
    using assms(1,3) unfolding bucket_ok_def trig_def
    by (auto elim!: sorted_wrt_mono_rel[rotated])
  ultimately show ?thesis using assms by (auto simp: bucket_ok_def)
qed

lemma bucket_ok_relink:
  assumes "bucket_ok s h xs" "dll (mem s') None (timers s' h) ys" "distinct ys"
    and "sorted_wrt (\<lambda>x y. tv_le (trig s' x) (trig s' y)) ys"
    and "\<forall>x\<in>set ys. hash_field (mem s' x) = h \<and> hash (mem s' x) = h"
  shows "bucket_ok s' h ys"
  using assms by (simp add: bucket_ok_def)

lemma reg_inv_bucket: "reg_inv s bs fl \<Longrightarrow> h < HASH_SIZE \<Longrightarrow> bucket_ok s h (bs h)"
  by (simp add: reg_inv_def)

lemma reg_inv_disjoint:
  assumes "reg_inv s bs fl" "h < HASH_SIZE" "k < HASH_SIZE" "h \<noteq> k" "x \<in> set (bs h)"
  shows "x \<notin> set (bs k)"
proof
  assume "x \<in> set (bs k)"
  with reg_inv_bucket[OF assms(1,3)] have "hash_field (mem s x) = k"
    by (simp add: bucket_ok_def)
  moreover from assms(5) reg_inv_bucket[OF assms(1,2)] have "hash_field (mem s x) = h"
    by (simp add: bucket_ok_def)
  ultimately show False using assms(4) by simp
qed

lemma reg_inv_not_free:
  assumes "reg_inv s bs fl" "h < HASH_SIZE" "x \<in> set (bs h)"
  shows "x \<notin> set fl"
  using assms by (auto simp: reg_inv_def)

text \<open>A state change that touches one list only.\<close>

lemma reg_inv_update_bucket:
  assumes inv: "reg_inv s bs fl" and h: "h < HASH_SIZE"
    and b: "bucket_ok s' h ys"
    and mem: "\<forall>x. x \<notin> set (bs h) \<and> x \<notin> U \<longrightarrow> mem s' x = mem s x"
    and U: "\<forall>x\<in>U. detached bs fl x \<or> x \<in> set (bs h)"
    and tim: "\<forall>k. k \<noteq> h \<longrightarrow> timers s' k = timers s k"
    and fr: "free_timers s' = free_timers s" "free_count s' = free_count s"
    and sub: "set ys \<subseteq> set (bs h) \<union> U"
  shows "reg_inv s' (bs(h := ys)) fl"
proof -
  have other: "mem s' x = mem s x" if "k < HASH_SIZE" "k \<noteq> h" "x \<in> set (bs k)" for k x
  proof -
    have nh: "x \<notin> set (bs h)" using reg_inv_disjoint[OF inv that(1) h that(2,3)] .
    have "x \<notin> U"
    proof
      assume "x \<in> U"
      with U have "detached bs fl x \<or> x \<in> set (bs h)" by blast
      with nh that(1,3) show False by (auto simp: detached_def)
    qed
    with nh show ?thesis using mem by simp
  qed
  have free: "mem s' x = mem s x" if "x \<in> set fl" for x
  proof -
    have nh: "x \<notin> set (bs h)" using inv h that by (auto simp: reg_inv_def)
    have "x \<notin> U"
    proof
      assume "x \<in> U"
      with U have "detached bs fl x \<or> x \<in> set (bs h)" by blast
      with nh that show False by (auto simp: detached_def)
    qed
    with nh show ?thesis using mem by simp
  qed
  have "bucket_ok s' k ((bs(h := ys)) k)" if "k < HASH_SIZE" for k
  proof (cases "k = h")
    case True
    with b show ?thesis by simp
  next
    case False
    have "bucket_ok s' k (bs k)"
      by (rule bucket_ok_frame[OF reg_inv_bucket[OF inv that]])
         (use tim False other that in auto)
    with False show ?thesis by simp
  qed
  moreover have "sll (mem s') (free_timers s') fl"
    using inv free by (auto simp: reg_inv_def fr intro: sll_frame)
  moreover have "set ((bs(h := ys)) k) \<inter> set fl = {}" if "k < HASH_SIZE" for k
  proof (cases "k = h")
    case True
    have "x \<notin> set fl" if "x \<in> set ys" for x
    proof (cases "x \<in> set (bs h)")
      case True
      then show ?thesis using reg_inv_not_free[OF inv h] by simp
    next
      case False
      with that sub have "x \<in> U" by auto
      with U False have "detached bs fl x" by blast
      then show ?thesis by (simp add: detached_def)
    qed
    then have "set ys \<inter> set fl = {}" by auto
    with True show ?thesis by simp
  next
    case False
    with inv that show ?thesis by (simp add: reg_inv_def)
  qed
  ultimately show ?thesis using inv by (simp add: reg_inv_def fr)
qed

lemma same_frame_trig: "same_frame s' s \<Longrightarrow> trig s' = trig s"
  by (auto simp: fun_eq_iff trig_def dest: same_frame_payload payload_eqD)

lemma same_frame_refl [simp]: "same_frame s s"
  by (simp add: same_frame_def)

lemma same_frame_trans: "same_frame s'' s' \<Longrightarrow> same_frame s' s \<Longrightarrow> same_frame s'' s"
  by (simp add: same_frame_def)


lemma reg_l_add:
  assumes inv: "reg_inv s bs fl" and det: "detached bs fl t"
    and hf: "hash_field (mem s t) = h" and hh: "hash (mem s t) = h" and h: "h < HASH_SIZE"
  shows "\<exists>s'. l_add s t = Some s'
           \<and> reg_inv s' (bs(h := l_ins (trig s) t (bs h))) fl
           \<and> same_frame s' s"
proof -
  have b: "bucket_ok s h (bs h)" by (rule reg_inv_bucket[OF inv h])
  have tn: "t \<notin> set (bs h)" using det h by (simp add: detached_def)
  from b have d: "dll (mem s) None (timers s h) (bs h)" and di: "distinct (bs h)"
    by (simp_all add: bucket_ok_def)
  from l_add_spec[OF d di tn hf] obtain s' where
    s': "l_add s t = Some s'"
      "dll (mem s') None (timers s' h) (l_ins (trig s) t (bs h))"
      "\<forall>x. x \<notin> set (bs h) \<and> x \<noteq> t \<longrightarrow> mem s' x = mem s x"
      "\<forall>k. k \<noteq> h \<longrightarrow> timers s' k = timers s k" "same_frame s' s"
    by blast
  have tr: "trig s' = trig s" by (rule same_frame_trig[OF s'(5)])
  have pl: "payload (mem s' x) = payload (mem s x)" for x
    by (rule same_frame_payload[OF s'(5)])
  have b': "bucket_ok s' h (l_ins (trig s) t (bs h))"
  proof (rule bucket_ok_relink[OF b s'(2)])
    show "distinct (l_ins (trig s) t (bs h))" by (rule l_ins_distinct[OF di tn])
    show "sorted_wrt (\<lambda>x y. tv_le (trig s' x) (trig s' y)) (l_ins (trig s) t (bs h))"
      unfolding tr using b by (intro sorted_l_ins) (simp add: bucket_ok_def)
    show "\<forall>x\<in>set (l_ins (trig s) t (bs h)).
            hash_field (mem s' x) = h \<and> hash (mem s' x) = h"
      using b hf hh payload_eqD(2,3)[OF pl] by (auto simp: bucket_ok_def)
  qed
  have "reg_inv s' (bs(h := l_ins (trig s) t (bs h))) fl"
  proof (rule reg_inv_update_bucket[OF inv h b', where U = "{t}"])
    show "\<forall>x. x \<notin> set (bs h) \<and> x \<notin> {t} \<longrightarrow> mem s' x = mem s x" using s'(3) by simp
    show "\<forall>x\<in>{t}. detached bs fl x \<or> x \<in> set (bs h)" using det by simp
    show "\<forall>k. k \<noteq> h \<longrightarrow> timers s' k = timers s k" by (rule s'(4))
    show "free_timers s' = free_timers s" "free_count s' = free_count s"
      using s'(5) by (simp_all add: same_frame_def counts_def)
    show "set (l_ins (trig s) t (bs h)) \<subseteq> set (bs h) \<union> {t}" by auto
  qed
  with s'(1,5) show ?thesis by blast
qed


text \<open>Writing to a record that is on no list.\<close>

lemma reg_inv_detached_update:
  assumes inv: "reg_inv s bs fl" and det: "detached bs fl t"
    and mem: "\<forall>x. x \<noteq> t \<longrightarrow> mem s' x = mem s x" and tim: "timers s' = timers s"
    and fr: "free_timers s' = free_timers s" "free_count s' = free_count s"
  shows "reg_inv s' bs fl"
proof -
  have "bucket_ok s' k (bs k)" if "k < HASH_SIZE" for k
  proof (rule bucket_ok_frame[OF reg_inv_bucket[OF inv that]])
    show "timers s' k = timers s k" by (simp add: tim)
    have tn: "t \<notin> set (bs k)" using det that by (simp add: detached_def)
    show "\<forall>x\<in>set (bs k). mem s' x = mem s x"
    proof
      fix x assume "x \<in> set (bs k)"
      with tn have "x \<noteq> t" by auto
      with mem show "mem s' x = mem s x" by simp
    qed
  qed
  moreover have "sll (mem s') (free_timers s') fl"
  proof -
    have "sll (mem s) (free_timers s) fl" using inv by (simp add: reg_inv_def)
    moreover have tn: "t \<notin> set fl" using det by (simp add: detached_def)
    have "\<forall>x\<in>set fl. next (mem s' x) = next (mem s x)"
    proof
      fix x assume "x \<in> set fl"
      with tn have "x \<noteq> t" by auto
      with mem show "next (mem s' x) = next (mem s x)" by simp
    qed
    ultimately show ?thesis unfolding fr by (rule sll_frame)
  qed
  ultimately show ?thesis using inv fr(2) by (simp add: reg_inv_def)
qed


lemma set_time_read [simp]:
  "prev (mem (set_time s t tv) x) = prev (mem s x)"
  "next (mem (set_time s t tv) x) = next (mem s x)"
  "hash_field (mem (set_time s t tv) x) = hash_field (mem s x)"
  "timers (set_time s t tv) = timers s"
  by (simp_all add: set_time_def)


lemma hash_time: "time a = time b \<Longrightarrow> hash a = hash b"
  by (simp add: hash_def)



lemma sdiv_1000_facts:
  fixes d :: int
  shows "(0 \<le> d \<longrightarrow> 0 \<le> d sdiv 1000 \<and> 1000 * (d sdiv 1000) \<le> d \<and> d < 1000 * (d sdiv 1000) + 1000)
       \<and> (d < 0 \<longrightarrow> d sdiv 1000 \<le> 0 \<and> d \<le> 1000 * (d sdiv 1000) \<and> 1000 * (d sdiv 1000) - 1000 < d)"
proof (cases "0 \<le> d")
  case True
  then have e: "d sdiv 1000 = d div 1000" by (simp add: signed_divide_int_def sgn_if)
  have "d = 1000 * (d div 1000) + d mod 1000" by simp
  moreover have "0 \<le> d mod 1000" "d mod 1000 < 1000" by simp_all
  moreover have "0 \<le> d div 1000" using True by (simp add: pos_imp_zdiv_nonneg_iff)
  ultimately show ?thesis using True unfolding e by linarith
next
  case False
  then have e: "d sdiv 1000 = - ((- d) div 1000)" by (simp add: signed_divide_int_def sgn_if)
  have "- d = 1000 * ((- d) div 1000) + (- d) mod 1000" by simp
  moreover have "0 \<le> (- d) mod 1000" "(- d) mod 1000 < 1000" by simp_all
  moreover have "0 \<le> (- d) div 1000" using False by (simp add: pos_imp_zdiv_nonneg_iff)
  ultimately show ?thesis using False unfolding e by linarith
qed

lemma sdiv_1000_mono: "a \<le> b \<Longrightarrow> a sdiv 1000 \<le> b sdiv 1000" for a b :: int
  using sdiv_1000_facts[of a] sdiv_1000_facts[of b] by (cases "0 \<le> a"; cases "0 \<le> b") linarith+

lemma ms_until_mono:
  assumes "tv_normal a" "tv_normal b" "tv_normal now" "tv_le a b"
  shows "ms_until now a \<le> ms_until now b"
proof (cases "tv_sec a = tv_sec b")
  case True
  with assms(4) have "tv_usec a - tv_usec now \<le> tv_usec b - tv_usec now"
    by (simp add: tv_le_def)
  from sdiv_1000_mono[OF this] True show ?thesis by (simp add: ms_until_def)
next
  case False
  with assms(4) have s: "tv_sec a + 1 \<le> tv_sec b" by (simp add: tv_le_def)
  define da db where "da = tv_usec a - tv_usec now" and "db = tv_usec b - tv_usec now"
  have r: "da \<le> 999999 - tv_usec now" "- tv_usec now \<le> db" "0 \<le> tv_usec now" "tv_usec now < 1000000"
    using assms(1-3) by (simp_all add: tv_normal_def da_def db_def)
  define qa qb where "qa = da sdiv 1000" and "qb = db sdiv 1000"
  have "qa - qb \<le> 999" unfolding qa_def qb_def
    using sdiv_1000_facts[of da] sdiv_1000_facts[of db] r
    by (cases "0 \<le> da"; cases "0 \<le> db") linarith+
  then have "(tv_sec a - tv_sec now) * 1000 + qa \<le> (tv_sec b - tv_sec now) * 1000 + qb"
    using s by (simp add: algebra_simps)
  then show ?thesis by (simp add: ms_until_def qa_def qb_def da_def db_def)
qed

lemma set_active: "set (active bs) = (\<Union>h\<in>{..<HASH_SIZE}. set (bs h))"
  by (auto simp: active_def)

lemma heads_ms_Nil [simp]: "heads_ms s now [] = {}"
  by (simp add: heads_ms_def)

lemma heads_ms_Cons:
  "heads_ms s now (h # hs) =
     (case timers s h of None \<Rightarrow> {} | Some x \<Rightarrow> {ms_until now (trig s x)}) \<union> heads_ms s now hs"
  by (auto simp: heads_ms_def split: option.splits)

lemma finite_heads_ms [simp]: "finite (heads_ms s now hs)"
  by (induction hs) (auto simp: heads_ms_Cons split: option.splits)

lemma mstimeout_step_alt:
  "mstimeout_step s now h gm =
     (case timers s h of
        None \<Rightarrow> gm
      | Some t \<Rightarrow> if \<not> fst gm then (True, ms_until now (trig s t))
                  else (True, min (ms_until now (trig s t)) (snd gm)))"
  by (cases gm) (auto simp: mstimeout_step_def ms_until_def trig_def Let_def min_def split: option.splits)

lemma fold_mstimeout:
  "fst (fold (mstimeout_step s now) hs (g, m)) =
      ((if g then {m} else {}) \<union> heads_ms s now hs \<noteq> {})
   \<and> ((if g then {m} else {}) \<union> heads_ms s now hs \<noteq> {} \<longrightarrow>
        snd (fold (mstimeout_step s now) hs (g, m)) =
        Min ((if g then {m} else {}) \<union> heads_ms s now hs))"
proof (induction hs arbitrary: g m)
  case Nil
  then show ?case by simp
next
  case (Cons h hs)
  show ?case
  proof (cases "timers s h")
    case None
    then show ?thesis using Cons.IH[of g m] by (simp add: mstimeout_step_alt heads_ms_Cons)
  next
    case (Some x)
    let ?v = "ms_until now (trig s x)"
    let ?m1 = "if g then min ?v m else ?v"
    have st: "mstimeout_step s now h (g, m) = (True, ?m1)"
      by (simp add: mstimeout_step_alt Some)
    have fin: "finite (heads_ms s now hs)" by simp
    have e: "Min (insert ?m1 (heads_ms s now hs)) =
             Min ((if g then {m} else {}) \<union> heads_ms s now (h # hs))"
    proof (cases g)
      case True
      have key: "Min (insert (min ?v m) (heads_ms s now hs)) = Min (insert m (insert ?v (heads_ms s now hs)))"
      proof (cases "heads_ms s now hs = {}")
        case True
        then show ?thesis by (simp add: min.commute)
      next
        case False
        have a: "Min (insert (min ?v m) (heads_ms s now hs)) = min (min ?v m) (Min (heads_ms s now hs))"
          by (rule Min_insert[OF fin False])
        have b0: "Min (insert ?v (heads_ms s now hs)) = min ?v (Min (heads_ms s now hs))"
          by (rule Min_insert[OF fin False])
        have b1: "Min (insert m (insert ?v (heads_ms s now hs))) =
            min m (Min (insert ?v (heads_ms s now hs)))"
          by (rule Min_insert) (use fin in simp_all)
        show ?thesis unfolding a b1 b0 by (simp only: min_def) auto
      qed
      have se: "{m} \<union> heads_ms s now (h # hs) = insert m (insert ?v (heads_ms s now hs))"
        by (auto simp: heads_ms_Cons Some)
      show ?thesis using key by (simp only: True if_True se)
    next
      case False
      then show ?thesis by (simp add: heads_ms_Cons Some)
    qed
    show ?thesis using Cons.IH[of True ?m1] e by (simp add: st heads_ms_Cons Some)
  qed
qed

lemma bucket_ok_head:
  assumes "bucket_ok s h xs"
  shows "timers s h = (case xs of [] \<Rightarrow> None | x # _ \<Rightarrow> Some x)"
  using assms dll_head[of "mem s" None "timers s h" xs] by (simp add: bucket_ok_def)

lemma sorted_head_le:
  assumes "sorted_wrt (\<lambda>x y. tv_le (tm x) (tm y)) (x # xs)" "y \<in> set (x # xs)"
  shows "tv_le (tm x) (tm y)"
  using assms by auto

lemma mstimeout_min:
  assumes inv: "reg_inv s bs fl"
    and nrm: "\<forall>x\<in>set (active bs). tv_normal (trig s x)" and now: "tv_normal now"
  shows "fst (tmr_mstimeout inftim s now) =
     (if active bs = [] then inftim
      else if Min ((\<lambda>x. ms_until now (trig s x)) ` set (active bs)) \<le> 0 then 500
      else Min ((\<lambda>x. ms_until now (trig s x)) ` set (active bs)))"
proof -
  let ?f = "\<lambda>x. ms_until now (trig s x)"
  let ?A = "?f ` set (active bs)"
  let ?H = "heads_ms s now [0..<HASH_SIZE]"
  have HA: "?H \<subseteq> ?A"
  proof
    fix v assume "v \<in> ?H"
    then obtain x h where x: "v = ?f x" "h < HASH_SIZE" "timers s h = Some x"
      by (auto simp: heads_ms_def)
    from bucket_ok_head[OF reg_inv_bucket[OF inv x(2)]] x(3) have "x \<in> set (bs h)"
      by (cases "bs h") auto
    with x(1,2) show "v \<in> ?A" by (auto simp: set_active)
  qed
  have AH: "\<exists>b\<in>?H. b \<le> a" if "a \<in> ?A" for a
  proof -
    from that obtain y h where y: "a = ?f y" "h < HASH_SIZE" "y \<in> set (bs h)"
      by (auto simp: set_active)
    have b: "bucket_ok s h (bs h)" by (rule reg_inv_bucket[OF inv y(2)])
    from y(3) obtain x xs where xs: "bs h = x # xs" by (cases "bs h") auto
    from bucket_ok_head[OF b] xs have hd: "timers s h = Some x" by simp
    have "sorted_wrt (\<lambda>x y. tv_le (trig s x) (trig s y)) (x # xs)"
      using b xs by (simp add: bucket_ok_def)
    from sorted_head_le[OF this] y(3) xs have le: "tv_le (trig s x) (trig s y)" by simp
    have "x \<in> set (bs h)" using xs by simp
    then have "x \<in> set (active bs)" "y \<in> set (active bs)"
      using y(2,3) by (auto simp: set_active intro!: bexI[of _ h])
    with nrm have "tv_normal (trig s x)" "tv_normal (trig s y)" by auto
    from ms_until_mono[OF this now le] have "?f x \<le> a" by (simp add: y(1))
    moreover have "?f x \<in> ?H" using hd y(2) by (auto simp: heads_ms_def)
    ultimately show ?thesis by blast
  qed
  have emp: "?H = {} \<longleftrightarrow> active bs = []"
    using HA AH by (metis empty_iff image_is_empty set_empty subset_empty equals0I)
  have fA: "finite ?A" by simp
  have M: "Min ?H = Min ?A" if "active bs \<noteq> []"
  proof (rule Min_eqI[OF fA, symmetric])
    have ne: "?H \<noteq> {}" using that emp by simp
    show "Min ?H \<in> ?A" using Min_in[OF finite_heads_ms ne] HA by blast
    fix a assume "a \<in> ?A"
    from AH[OF this] obtain b where b: "b \<in> ?H" "b \<le> a" by blast
    have "Min ?H \<le> b" by (rule Min_le[OF finite_heads_ms b(1)])
    with b(2) show "Min ?H \<le> a" by linarith
  qed
  from fold_mstimeout[of s now "[0..<HASH_SIZE]" False 0]
  have f: "fst (fold (mstimeout_step s now) [0..<HASH_SIZE] (False, 0)) = (?H \<noteq> {})"
    "?H \<noteq> {} \<longrightarrow> snd (fold (mstimeout_step s now) [0..<HASH_SIZE] (False, 0)) = Min ?H"
    by simp_all
  show ?thesis
  proof (cases "active bs = []")
    case True
    with emp f(1) show ?thesis by (simp add: tmr_mstimeout_def Let_def)
  next
    case False
    with emp f M[OF False] show ?thesis by (simp add: tmr_mstimeout_def Let_def)
  qed
qed

lemma reg_inv_irrelevant [simp]:
  "reg_inv (s\<lparr>active_count := n\<rparr>) bs fl = reg_inv s bs fl"
  "reg_inv (s\<lparr>alloc_count := n\<rparr>) bs fl = reg_inv s bs fl"
  "reg_inv (s\<lparr>calls := cs\<rparr>) bs fl = reg_inv s bs fl"
  by (simp_all add: reg_inv_def bucket_ok_def trig_def)

lemma trig_irrelevant [simp]:
  "trig (s\<lparr>active_count := n\<rparr>) = trig s"
  "trig (s\<lparr>alloc_count := n\<rparr>) = trig s"
  "trig (s\<lparr>calls := cs\<rparr>) = trig s"
  by (simp_all add: fun_eq_iff trig_def)

lemma reg_inv_init: "reg_inv (tmr_init s) (\<lambda>_. []) []"
  by (simp add: reg_inv_def bucket_ok_def tmr_init_def)

text \<open>The part of \<open>tmr_create\<close> after a record has been obtained.\<close>

lemma reg_create_core:
  fixes s1 :: registry and tb :: timeval and ms :: int and c :: nat and g :: int and per :: int
    and t :: addr
  assumes inv: "reg_inv s1 bs fl" and det: "detached bs fl t"
  defines "tv \<equiv> tv_add_msecs tb ms"
  defines "h \<equiv> hash (null_timer\<lparr>time := tv\<rparr>)"
  defines "s4 \<equiv> set_hash (set_time (s1\<lparr>mem := (mem s1)(t := (mem s1 t)
                      \<lparr>cb := c, arg := g, msecs := ms, periodic := per\<rparr>)\<rparr>) t tv) t h"
  shows "\<exists>s5. l_add s4 t = Some s5
           \<and> reg_inv s5 (bs(h := l_ins (trig s5) t (bs h))) fl
           \<and> payload (mem s5 t) = (c, g, ms, per, tv, h)
           \<and> (\<forall>x. x \<noteq> t \<longrightarrow> payload (mem s5 x) = payload (mem s1 x))
           \<and> free_timers s5 = free_timers s1 \<and> counts s5 = counts s1 \<and> calls s5 = calls s1"
proof -
  have h: "h < HASH_SIZE" unfolding h_def by (rule hash_less)
  have i4: "reg_inv s4 bs fl"
    by (rule reg_inv_detached_update[OF inv det]) (simp_all add: s4_def store_defs)
  have m4: "payload (mem s4 t) = (c, g, ms, per, tv, h)"
    by (simp add: s4_def store_defs payload_def)
  have hf: "hash_field (mem s4 t) = h" by (simp add: s4_def store_defs)
  have "hash (mem s4 t) = hash (null_timer\<lparr>time := tv\<rparr>)"
    by (rule hash_time) (simp add: s4_def store_defs)
  then have hh: "hash (mem s4 t) = h" by (simp only: h_def)
  from reg_l_add[OF i4 det hf hh h] obtain s5 where
    s5: "l_add s4 t = Some s5" "reg_inv s5 (bs(h := l_ins (trig s4) t (bs h))) fl"
      "same_frame s5 s4"
    by blast
  have tr: "trig s5 = trig s4" by (rule same_frame_trig[OF s5(3)])
  have pl: "payload (mem s5 x) = payload (mem s4 x)" for x
    by (rule same_frame_payload[OF s5(3)])
  have "\<forall>x. x \<noteq> t \<longrightarrow> payload (mem s5 x) = payload (mem s1 x)"
    by (simp add: pl s4_def store_defs)
  moreover have "free_timers s5 = free_timers s1 \<and> counts s5 = counts s1 \<and> calls s5 = calls s1"
    using s5(3) by (simp add: same_frame_def s4_def store_defs counts_def)
  ultimately show ?thesis using s5(1,2) m4 by (auto simp: tr pl)
qed

lemma tmr_create_alt:
  "tmr_create s m now clk c g ms per =
     (case (case free_timers s of
              Some t \<Rightarrow>
                Some (t, s\<lparr>free_timers := next (mem s t), free_count := free_count s - 1\<rparr>)
            | None \<Rightarrow>
                (case m of
                   None \<Rightarrow> None
                 | Some t \<Rightarrow> Some (t, s\<lparr>alloc_count := alloc_count s + 1\<rparr>))) of
        None \<Rightarrow> Some (None, s)
      | Some (t, s1) \<Rightarrow>
          (let t0 = (case now of Some n \<Rightarrow> n
                     | None \<Rightarrow> tmr_prepare_timeval clk (time (mem s1 t)))
           in case l_add (set_hash (set_time (s1\<lparr>mem := (mem s1)(t := (mem s1 t)
                      \<lparr>cb := c, arg := g, msecs := ms, periodic := per\<rparr>)\<rparr>) t
                      (tv_add_msecs t0 ms)) t
                      (hash (null_timer\<lparr>time := tv_add_msecs t0 ms\<rparr>))) t of
             None \<Rightarrow> None
           | Some s5 \<Rightarrow> Some (Some t, s5\<lparr>active_count := active_count s5 + 1\<rparr>)))"
proof -
  have e: "hash (mem (set_time s2 t tv) t) = hash (null_timer\<lparr>time := tv\<rparr>)" for s2 t tv
    by (rule hash_time) (simp add: set_time_def)
  show ?thesis
    by (simp add: tmr_create_def Let_def e split: option.splits)
qed

lemma reg_create_free:
  fixes now clk :: "timeval option" and ms :: int
  assumes inv: "reg_inv s bs (t # fl)"
  defines "tv \<equiv> create_time s t now clk ms"
  defines "h \<equiv> hash (null_timer\<lparr>time := tv\<rparr>)"
  shows "\<exists>s'. (\<forall>m. tmr_create s m now clk c g ms per = Some (Some t, s'))
           \<and> reg_inv s' (bs(h := l_ins (trig s') t (bs h))) fl
           \<and> payload (mem s' t) = (c, g, ms, per, tv, h)
           \<and> (\<forall>x. x \<noteq> t \<longrightarrow> payload (mem s' x) = payload (mem s x))
           \<and> alloc_count s' = alloc_count s \<and> free_count s' = free_count s - 1
           \<and> active_count s' = active_count s + 1 \<and> calls s' = calls s"
proof -
  let ?s1 = "s\<lparr>free_timers := next (mem s t), free_count := free_count s - 1\<rparr>"
  from inv have ft: "free_timers s = Some t" and sl: "sll (mem s) (next (mem s t)) fl"
    and di: "distinct (t # fl)" and fc: "free_count s = int (length (t # fl))"
    by (simp_all add: reg_inv_def)
  have i1: "reg_inv ?s1 bs fl"
    using inv sl di fc by (simp add: reg_inv_def bucket_ok_def trig_def)
  have det: "detached bs fl t"
    using inv di by (auto simp: detached_def reg_inv_def)
  let ?t0 = "case now of Some n \<Rightarrow> n | None \<Rightarrow> tmr_prepare_timeval clk (time (mem ?s1 t))"
  have tv: "tv = tv_add_msecs ?t0 ms" by (cases now) (simp_all add: tv_def create_time_def)
  from reg_create_core[OF i1 det, where tb = ?t0 and ms = ms and c = c and g = g and per = per] obtain s5 where
    s5: "l_add (set_hash (set_time (?s1\<lparr>mem := (mem ?s1)(t := (mem ?s1 t)
                      \<lparr>cb := c, arg := g, msecs := ms, periodic := per\<rparr>)\<rparr>) t tv) t h) t = Some s5"
      "reg_inv s5 (bs(h := l_ins (trig s5) t (bs h))) fl"
      "payload (mem s5 t) = (c, g, ms, per, tv, h)"
      "\<forall>x. x \<noteq> t \<longrightarrow> payload (mem s5 x) = payload (mem ?s1 x)"
      "free_timers s5 = free_timers ?s1" "counts s5 = counts ?s1" "calls s5 = calls ?s1"
    unfolding tv h_def by blast
  let ?s' = "s5\<lparr>active_count := active_count s5 + 1\<rparr>"
  have "tmr_create s m now clk c g ms per = Some (Some t, ?s')" for m
    using s5(1) unfolding tv h_def by (simp add: tmr_create_alt ft Let_def)
  moreover have "reg_inv ?s' (bs(h := l_ins (trig ?s') t (bs h))) fl"
    using s5(2) by simp
  ultimately show ?thesis using s5(3,4,6,7)
    by (intro exI[of _ ?s']) (simp add: counts_def)
qed


lemma reg_inv_free1: "reg_inv reg_free1 (\<lambda>_. []) [5]"
  by (simp add: reg_inv_def bucket_ok_def reg_free1_def reg0_def null_timer_def)

lemma reg_inv_reg1: "reg_inv reg1 bs1 []"
  by (simp add: reg_inv_def bucket_ok_def reg1_def bs1_def reg0_def null_timer_def hash_def
        HASH_SIZE_def)

lemma active_bs1: "active bs1 = [5]"
  by (simp add: active_def bs1_def HASH_SIZE_def upt67)

lemma trig_reg1: "trig reg1 5 = \<lparr>tv_sec = 2, tv_usec = 500\<rparr>"
  by (simp add: trig_def reg1_def)

lemma normal_reg1: "\<forall>x\<in>set (active bs1). tv_normal (trig reg1 x)"
  by (simp add: active_bs1 trig_reg1 tv_normal_def)

lemma reg1_created:
  "tmr_create (tmr_init reg0) (Some 5) (Some \<lparr>tv_sec = 0, tv_usec = 500\<rparr>) None 0 0 2000 0
     = Some (Some 5, reg1)"
  by (simp add: eval_defs reg0_def reg1_def null_timer_def fun_eq_iff)

lemma mstimeout_earliest:
  assumes inv: "reg_inv s bs fl"
    and nrm: "\<forall>x\<in>set (active bs). tv_normal (trig s x)" and now: "tv_normal now"
    and e: "e \<in> set (active bs)" and first: "\<forall>x\<in>set (active bs). tv_le (trig s e) (trig s x)"
  shows "fst (tmr_mstimeout inftim s now) =
     (if ms_until now (trig s e) \<le> 0 then 500 else ms_until now (trig s e))"
proof -
  let ?f = "\<lambda>x. ms_until now (trig s x)"
  have "Min (?f ` set (active bs)) = ?f e"
  proof (rule Min_eqI)
    show "finite (?f ` set (active bs))" by simp
    show "?f e \<in> ?f ` set (active bs)" using e by simp
    fix y assume "y \<in> ?f ` set (active bs)"
    then obtain x where x: "x \<in> set (active bs)" "y = ?f x" by auto
    from nrm e x(1) have "tv_normal (trig s e)" "tv_normal (trig s x)" by auto
    from ms_until_mono[OF this now] first x show "?f e \<le> y" by simp
  qed
  moreover have "active bs \<noteq> []" using e by auto
  ultimately show ?thesis using mstimeout_min[OF inv nrm now, of inftim] by simp
qed

lemma list_head_simps [simp]: "list_head [] = None" "list_head (x # xs) = Some x"
  by (simp_all add: list_head_def)
































lemma ms_until_exact:
  "\<bar>ms_until now tv * 1000 - (tv_usecs tv - tv_usecs now)\<bar> < 1000"
proof -
  define d where "d = tv_usec tv - tv_usec now"
  define q where "q = d sdiv 1000"
  have e: "ms_until now tv * 1000 - (tv_usecs tv - tv_usecs now) = 1000 * q - d"
    by (simp add: ms_until_def tv_usecs_def d_def q_def algebra_simps)
  from sdiv_1000_facts[of d] have "- 1000 < 1000 * q - d \<and> 1000 * q - d < 1000"
    unfolding q_def[symmetric] by (cases "0 \<le> d") auto
  then show ?thesis unfolding e by linarith
qed

lemma sll_head: "sll m p xs \<Longrightarrow> p = list_head xs"
  by (cases xs) simp_all

lemma reg2a_created:
  "tmr_create (tmr_init reg0) (Some 5) (Some \<lparr>tv_sec = 10, tv_usec = 0\<rparr>) None 7 9 (- 2500) 0
     = Some (Some 5, reg2a)"
  by (simp add: eval_defs reg0_def reg2a_def null_timer_def fun_eq_iff)

lemma reg2_created:
  "tmr_create reg2a (Some 6) (Some \<lparr>tv_sec = 7, tv_usec = 900001\<rparr>) None 7 9 0 0
     = Some (Some 6, reg2)"
  by (simp add: eval_defs reg0_def reg2a_def reg2_def null_timer_def fun_eq_iff)

lemma reg_inv_reg2: "reg_inv reg2 bs2 []"
  by (simp add: reg_inv_def bucket_ok_def reg2_def bs2_def reg0_def null_timer_def hash_def
        HASH_SIZE_def trig_def tv_le_def)

lemma active_bs2: "active bs2 = [6, 5]"
  by (simp add: active_def bs2_def HASH_SIZE_def upt67)

lemma mstimeout_reg2: "fst (tmr_mstimeout (- 1) reg2 \<lparr>tv_sec = 0, tv_usec = 0\<rparr>) = 7900"
  by (simp add: tmr_mstimeout_def mstimeout_step_def ms_until_def reg2_def reg0_def
        HASH_SIZE_def upt67 null_timer_def signed_divide_int_def Let_def)

lemma ms_reg2:
  "ms_until \<lparr>tv_sec = 0, tv_usec = 0\<rparr> (trig reg2 5) = 7500"
  "ms_until \<lparr>tv_sec = 0, tv_usec = 0\<rparr> (trig reg2 6) = 7900"
  by (simp_all add: ms_until_def trig_def reg2_def signed_divide_int_def)

section \<open>The claims\<close>

text \<open>
  C1. For every sequence of create, cancel, reset, run, cleanup and destroy operations
  starting from the initialized state, at every point between operations the counter
  equation \<open>alloc_count = active_count + free_count\<close> holds. The sequence is arbitrary:
  any pointer may be passed to cancel and reset, and \<open>malloc\<close> may fail at any create.
\<close>

theorem C1_counter_equation:
  "s' \<in> set (run_ops (tmr_init s) ops) \<Longrightarrow>
   alloc_count s' = active_count s' + free_count s'"
  using counts_ok_run_ops[OF counts_ok_init] by (simp add: counts_ok_def)

theorem C1_counter_equation_witness:
  "map counts (run_ops (tmr_init reg0) demo_ops) =
     [(0, 0, 0), (1, 1, 0), (1, 1, 0), (2, 2, 0), (2, 1, 1), (2, 1, 1), (2, 0, 2), (0, 0, 0)]
   \<and> alloc_count (last (run_ops (tmr_init reg0) demo_ops)) =
       active_count (last (run_ops (tmr_init reg0) demo_ops))
       + free_count (last (run_ops (tmr_init reg0) demo_ops))"
proof -
  have "run_ops (tmr_init reg0) demo_ops \<noteq> []"
    by (simp add: demo_ops_def)
  from C1_counter_equation[OF last_in_set[OF this]]
  have "alloc_count (last (run_ops (tmr_init reg0) demo_ops)) =
       active_count (last (run_ops (tmr_init reg0) demo_ops))
       + free_count (last (run_ops (tmr_init reg0) demo_ops))" .
  moreover have "map counts (run_ops (tmr_init reg0) demo_ops) =
     [(0, 0, 0), (1, 1, 0), (1, 1, 0), (2, 2, 0), (2, 1, 1), (2, 1, 1), (2, 0, 2), (0, 0, 0)]"
    by (simp add: demo_ops_def eval_defs reg0_def null_timer_def counts_def tmr_cleanup.simps
          tmr_reset_def)
  ultimately show ?thesis by simp
qed

text \<open>
  C5. For every delay \<open>d \<ge> 0\<close> and time \<open>t0\<close>: creating a one-shot timer with delay \<open>d\<close> at
  time \<open>t0\<close> in an otherwise empty registry, then calling \<open>tmr_run\<close> once with
  \<open>now = t0 + d\<close>, invokes the callback exactly once, with arguments \<open>(arg, now)\<close>, and
  afterwards the timer is on the free list and in no bucket list.
\<close>

theorem C5_oneshot_roundtrip:
  assumes "0 \<le> d" and "tv_normal t0" and "tv_normal now"
    and "tv_usecs now = tv_usecs t0 + d * 1000"
  shows "\<exists>s2. create_then_run (tmr_init s) (Some a) t0 c g d 0 now = Some s2
           \<and> calls s2 = calls s @ [(a, c, g, now)]
           \<and> free_timers s2 = Some a \<and> next (mem s2 a) = None
           \<and> (\<forall>h<HASH_SIZE. timers s2 h = None)
           \<and> active_count s2 = 0 \<and> free_count s2 = 1 \<and> alloc_count s2 = 1"
proof -
  have "now = tv_add_msecs t0 d"
    using tv_add_msecs_exact[OF assms(1,2)] assms(3,4) by (intro tv_normal_unique) simp_all
  then show ?thesis
    using run_after_create_oneshot[of s a t0 c g d] by (simp add: tmr_init_def)
qed

theorem C5_oneshot_roundtrip_witness:
  "\<exists>s2. create_then_run (tmr_init reg0) (Some 1) \<lparr>tv_sec = 5, tv_usec = 600000\<rparr> 7 9 1500 0
          \<lparr>tv_sec = 7, tv_usec = 100000\<rparr> = Some s2
     \<and> calls s2 = [(1, 7, 9, \<lparr>tv_sec = 7, tv_usec = 100000\<rparr>)]
     \<and> free_timers s2 = Some 1 \<and> active_count s2 = 0"
  using C5_oneshot_roundtrip[of 1500 "\<lparr>tv_sec = 5, tv_usec = 600000\<rparr>"
          "\<lparr>tv_sec = 7, tv_usec = 100000\<rparr>" reg0 1 7 9]
  by (auto simp: tv_normal_def tv_usecs_def reg0_def)

text \<open>
  C6, as amended. Starting from an empty registry, creating a periodic timer with delay
  100 ms at \<open>now = (0 s, 0 us)\<close> and then calling \<open>tmr_run\<close> once with
  \<open>now = (0 s, 250000 us)\<close> invokes the callback exactly once in that call: the timer
  fires for its trigger at 100 ms, is rescheduled to 200 ms, and \<open>l_resort\<close> moves it from
  list 36 to list 5, which the loop over the lists has already passed. Afterwards the
  trigger is 200 ms. A second \<open>tmr_run\<close> with the same \<open>now\<close> fires it once more and
  leaves the trigger at 300 ms (not 350 ms).
\<close>

theorem C6_periodic_catch_up:
  "per \<noteq> 0 \<Longrightarrow>
   \<exists>s2. create_then_run (tmr_init s) (Some a) \<lparr>tv_sec = 0, tv_usec = 0\<rparr> c g 100 per
           \<lparr>tv_sec = 0, tv_usec = 250000\<rparr> = Some s2
     \<and> calls s2 = calls s @ [(a, c, g, \<lparr>tv_sec = 0, tv_usec = 250000\<rparr>)]
     \<and> time (mem s2 a) = \<lparr>tv_sec = 0, tv_usec = 200000\<rparr>
     \<and> timers s2 5 = Some a \<and> hash_field (mem s2 a) = 5
     \<and> (\<exists>s3. tmr_run s2 \<lparr>tv_sec = 0, tv_usec = 250000\<rparr> = Some s3
           \<and> calls s3 = calls s @ [(a, c, g, \<lparr>tv_sec = 0, tv_usec = 250000\<rparr>),
                                    (a, c, g, \<lparr>tv_sec = 0, tv_usec = 250000\<rparr>)]
           \<and> time (mem s3 a) = \<lparr>tv_sec = 0, tv_usec = 300000\<rparr>)"
  by (rule periodic_100_at_250)

theorem C6_periodic_catch_up_witness:
  "\<exists>s2. create_then_run (tmr_init reg0) (Some 1) \<lparr>tv_sec = 0, tv_usec = 0\<rparr> 7 9 100 1
           \<lparr>tv_sec = 0, tv_usec = 250000\<rparr> = Some s2
     \<and> calls s2 = [(1, 7, 9, \<lparr>tv_sec = 0, tv_usec = 250000\<rparr>)]
     \<and> time (mem s2 1) = \<lparr>tv_sec = 0, tv_usec = 200000\<rparr>"
  using C6_periodic_catch_up[of 1 reg0 1 7 9] by (auto simp: reg0_def)

text \<open>
  The claim as it was stated (two invocations in the single call, trigger 300 ms
  afterwards) fails on the code.
\<close>

theorem C6_counterexample:
  "\<not> (\<exists>s2. create_then_run (tmr_init reg0) (Some 1) \<lparr>tv_sec = 0, tv_usec = 0\<rparr> 7 9 100 1
               \<lparr>tv_sec = 0, tv_usec = 250000\<rparr> = Some s2
         \<and> length (calls s2) = 2
         \<and> time (mem s2 1) = \<lparr>tv_sec = 0, tv_usec = 300000\<rparr>)"
  using periodic_100_at_250[of 1 reg0 1 7 9] by (auto simp: reg0_def)

text \<open>
  C7. \<open>tmr_create\<close> returns an absent handle only when the underlying allocation fails
  (the free list is empty and \<open>malloc\<close> returns \<open>NULL\<close>), and in that case the operation is
  a no-op: the whole state, hence the bucket lists, the free list and the three counters,
  is exactly as before the call.
\<close>

theorem C7_create_failure:
  "tmr_create s m now clk c g ms per = Some (None, s') \<longleftrightarrow>
   free_timers s = None \<and> m = None \<and> s' = s"
  by (auto simp: tmr_create_def Let_def split: option.splits)

text \<open>
  C8. \<open>tmr_mstimeout\<close> is read-only: it leaves the state (bucket lists, free list,
  counters) unchanged, and a second call with the same \<open>now\<close> returns the same value.
\<close>

theorem C8_mstimeout_read_only:
  "snd (tmr_mstimeout inftim s now) = s \<and>
   fst (tmr_mstimeout inftim (snd (tmr_mstimeout inftim s now)) now) =
   fst (tmr_mstimeout inftim s now)"
proof -
  have "snd (tmr_mstimeout inftim s now) = s"
    by (simp add: tmr_mstimeout_def Let_def)
  then show ?thesis by simp
qed






text \<open>
  C2, as amended. In a well-formed registry in which every active trigger is in normal
  form (\<open>0 \<le> tv_usec < 1000000\<close>), for \<open>now\<close> in normal form, and when the arithmetic of
  \<open>tmr_mstimeout\<close> stays in the range of \<open>long\<close>: if no active timer exists,
  \<open>tmr_mstimeout\<close> returns \<open>INFTIM\<close>; otherwise it returns the minimum over all active
  timers of \<open>trigger - now\<close> in milliseconds, except that 500 is returned when that
  minimum is \<open>\<le> 0\<close>. The milliseconds of one timer are \<open>ms_until\<close>, the value of the
  expression of the code, which differs from the exact difference by less than one
  millisecond; the code looks at the list heads only.
\<close>

theorem C2_mstimeout_minimum:
  assumes "reg_inv s bs fl"
    and "\<forall>x\<in>set (active bs). tv_normal (trig s x)" and "tv_normal now"
    and "\<forall>x\<in>set (active bs). ms_fits now (trig s x)"
  shows "fst (tmr_mstimeout inftim s now) =
     (if active bs = [] then inftim
      else if Min ((\<lambda>x. ms_until now (trig s x)) ` set (active bs)) \<le> 0 then 500
      else Min ((\<lambda>x. ms_until now (trig s x)) ` set (active bs)))
   \<and> (\<forall>x\<in>set (active bs).
         \<bar>ms_until now (trig s x) * 1000 - (tv_usecs (trig s x) - tv_usecs now)\<bar> < 1000)"
  using mstimeout_min[OF assms(1-3)] ms_until_exact by simp

theorem C2_mstimeout_minimum_witness:
  "fst (tmr_mstimeout (- 1) reg1 \<lparr>tv_sec = 0, tv_usec = 250500\<rparr>) = 1750
   \<and> fst (tmr_mstimeout (- 1) reg1 \<lparr>tv_sec = 2, tv_usec = 500\<rparr>) = 500
   \<and> fst (tmr_mstimeout (- 1) (tmr_init reg0) \<lparr>tv_sec = 1, tv_usec = 0\<rparr>) = - 1"
proof -
  note n = normal_reg1
  have a: "fst (tmr_mstimeout (- 1) reg1 \<lparr>tv_sec = 0, tv_usec = 250500\<rparr>) = 1750"
    using C2_mstimeout_minimum[OF reg_inv_reg1 n, of "\<lparr>tv_sec = 0, tv_usec = 250500\<rparr>" "- 1"]
    by (simp add: active_bs1 trig_reg1 tv_normal_def ms_until_def signed_divide_int_def
          ms_fits_def long_ok_def)
  have b: "fst (tmr_mstimeout (- 1) reg1 \<lparr>tv_sec = 2, tv_usec = 500\<rparr>) = 500"
    using C2_mstimeout_minimum[OF reg_inv_reg1 n, of "\<lparr>tv_sec = 2, tv_usec = 500\<rparr>" "- 1"]
    by (simp add: active_bs1 trig_reg1 tv_normal_def ms_until_def ms_fits_def long_ok_def)
  have c: "fst (tmr_mstimeout (- 1) (tmr_init reg0) \<lparr>tv_sec = 1, tv_usec = 0\<rparr>) = - 1"
    using C2_mstimeout_minimum[OF reg_inv_init, of reg0 "\<lparr>tv_sec = 1, tv_usec = 0\<rparr>" "- 1"]
    by (simp add: active_def tv_normal_def)
  from a b c show ?thesis by simp
qed

text \<open>
  The claim as it was stated, for every registry state, fails when a trigger is not in
  normal form, which \<open>tmr_create\<close> produces for a negative delay: record 5 has the
  trigger (8 s, \<open>- 500000\<close> us), 7500 ms after (0 s, 0 us), and stands behind record 6 with
  the trigger (7 s, 900001 us), 7900 ms after it, in the same list. \<open>tmr_mstimeout\<close> reads
  the head and returns 7900; the minimum over the active timers is 7500.
\<close>

theorem C2_counterexample:
  "tmr_create (tmr_init reg0) (Some 5) (Some \<lparr>tv_sec = 10, tv_usec = 0\<rparr>) None 7 9 (- 2500) 0
     = Some (Some 5, reg2a)
   \<and> tmr_create reg2a (Some 6) (Some \<lparr>tv_sec = 7, tv_usec = 900001\<rparr>) None 7 9 0 0
       = Some (Some 6, reg2)
   \<and> reg_inv reg2 bs2 [] \<and> active bs2 = [6, 5]
   \<and> trig reg2 5 = \<lparr>tv_sec = 8, tv_usec = - 500000\<rparr>
   \<and> trig reg2 6 = \<lparr>tv_sec = 7, tv_usec = 900001\<rparr>
   \<and> Min ((\<lambda>x. ms_until \<lparr>tv_sec = 0, tv_usec = 0\<rparr> (trig reg2 x)) ` set (active bs2)) = 7500
   \<and> fst (tmr_mstimeout (- 1) reg2 \<lparr>tv_sec = 0, tv_usec = 0\<rparr>) = 7900"
proof -
  have t: "trig reg2 5 = \<lparr>tv_sec = 8, tv_usec = - 500000\<rparr>"
    "trig reg2 6 = \<lparr>tv_sec = 7, tv_usec = 900001\<rparr>"
    by (simp_all add: trig_def reg2_def)
  have "Min ((\<lambda>x. ms_until \<lparr>tv_sec = 0, tv_usec = 0\<rparr> (trig reg2 x)) ` set (active bs2)) = 7500"
    by (simp add: active_bs2 ms_reg2)
  with t show ?thesis
    by (simp only: reg2a_created reg2_created reg_inv_reg2 active_bs2 mstimeout_reg2 simp_thms)
qed

text \<open>
  C9, as amended. In a well-formed registry in which every active trigger is in normal
  form, for \<open>now\<close> in normal form, and when the arithmetic of \<open>tmr_mstimeout\<close> stays in the
  range of \<open>long\<close>: let the earliest active trigger be strictly after \<open>now\<close> and less than
  1000 microseconds after it. Then \<open>tmr_mstimeout\<close> returns 500 if that trigger lies in
  the same second as \<open>now\<close> (the truncated difference is 0 and is clamped), and 1 if it
  lies in the next second (the whole-second difference contributes 1000 and the
  truncated microsecond difference \<open>- 999\<close>).
\<close>

theorem C9_submillisecond_clamp:
  assumes "reg_inv s bs fl"
    and "\<forall>x\<in>set (active bs). tv_normal (trig s x)" and "tv_normal now"
    and "\<forall>x\<in>set (active bs). ms_fits now (trig s x)"
    and "e \<in> set (active bs)" and "\<forall>x\<in>set (active bs). tv_le (trig s e) (trig s x)"
    and "0 < tv_usecs (trig s e) - tv_usecs now"
    and "tv_usecs (trig s e) - tv_usecs now < 1000"
  shows "fst (tmr_mstimeout inftim s now) = (if tv_sec (trig s e) = tv_sec now then 500 else 1)"
proof -
  let ?t = "trig s e"
  have ne: "tv_normal ?t" using assms(2,5) by auto
  have r: "0 \<le> tv_usec ?t" "tv_usec ?t < 1000000" "0 \<le> tv_usec now" "tv_usec now < 1000000"
    using ne assms(3) by (simp_all add: tv_normal_def)
  define d where "d = tv_usec ?t - tv_usec now"
  define k where "k = tv_sec ?t - tv_sec now"
  have kd: "0 < k * 1000000 + d" "k * 1000000 + d < 1000"
    using assms(7,8) by (simp_all add: tv_usecs_def d_def k_def algebra_simps)
  have dr: "- 1000000 < d" "d < 1000000" using r by (simp_all add: d_def)
  have "\<not> k \<le> - 1" "\<not> 2 \<le> k" using kd dr by linarith+
  then have k01: "k = 0 \<or> k = 1" by linarith
  have m: "ms_until now ?t = k * 1000 + d sdiv 1000"
    by (simp add: ms_until_def d_def k_def)
  note me = mstimeout_earliest[OF assms(1-3) assms(5,6), of inftim]
  show ?thesis
  proof (cases "k = 0")
    case True
    with kd have "0 < d" "d < 1000" by simp_all
    then have "d sdiv 1000 = 0" using sdiv_1000_facts[of d] by linarith
    with True m have "ms_until now ?t = 0" by simp
    with True me show ?thesis by (simp add: k_def)
  next
    case False
    with k01 have k: "k = 1" by simp
    with kd have "d < - 999000" "- 1000000 < d" by simp_all
    then have "d sdiv 1000 = - 999" using sdiv_1000_facts[of d] by linarith
    with k m have "ms_until now ?t = 1" by simp
    with k me show ?thesis by (simp add: k_def)
  qed
qed

theorem C9_submillisecond_clamp_witness:
  "fst (tmr_mstimeout (- 1) reg1 \<lparr>tv_sec = 2, tv_usec = 100\<rparr>) = 500
   \<and> fst (tmr_mstimeout (- 1) reg1 \<lparr>tv_sec = 1, tv_usec = 999900\<rparr>) = 1"
proof -
  note n = normal_reg1
  have a: "fst (tmr_mstimeout (- 1) reg1 \<lparr>tv_sec = 2, tv_usec = 100\<rparr>) = 500"
    using C9_submillisecond_clamp[OF reg_inv_reg1 n, of "\<lparr>tv_sec = 2, tv_usec = 100\<rparr>" 5 "- 1"]
    by (simp add: active_bs1 trig_reg1 tv_normal_def tv_usecs_def ms_fits_def long_ok_def
          ms_until_def signed_divide_int_def)
  have b: "fst (tmr_mstimeout (- 1) reg1 \<lparr>tv_sec = 1, tv_usec = 999900\<rparr>) = 1"
    using C9_submillisecond_clamp[OF reg_inv_reg1 n, of "\<lparr>tv_sec = 1, tv_usec = 999900\<rparr>" 5 "- 1"]
    by (simp add: active_bs1 trig_reg1 tv_normal_def tv_usecs_def ms_fits_def long_ok_def
          ms_until_def signed_divide_int_def)
  from a b show ?thesis by simp
qed

text \<open>
  The claim as it was stated fails when the second changes between \<open>now\<close> and the
  trigger: with the only trigger at (2 s, 500 us) and \<open>now\<close> = (1 s, 999501 us), 999
  microseconds earlier, the result is 1, not 500.
\<close>

theorem C9_counterexample:
  "tmr_create (tmr_init reg0) (Some 5) (Some \<lparr>tv_sec = 0, tv_usec = 500\<rparr>) None 0 0 2000 0
     = Some (Some 5, reg1)
   \<and> reg_inv reg1 bs1 [] \<and> active bs1 = [5]
   \<and> trig reg1 5 = \<lparr>tv_sec = 2, tv_usec = 500\<rparr>
   \<and> tv_usecs (trig reg1 5) - tv_usecs \<lparr>tv_sec = 1, tv_usec = 999501\<rparr> = 999
   \<and> fst (tmr_mstimeout (- 1) reg1 \<lparr>tv_sec = 1, tv_usec = 999501\<rparr>) = 1"
proof -
  have "fst (tmr_mstimeout (- 1) reg1 \<lparr>tv_sec = 1, tv_usec = 999501\<rparr>) = 1"
    using mstimeout_min[OF reg_inv_reg1 normal_reg1, of "\<lparr>tv_sec = 1, tv_usec = 999501\<rparr>" "- 1"]
    by (simp add: active_bs1 trig_reg1 tv_normal_def ms_until_def signed_divide_int_def)
  then show ?thesis
    by (simp add: reg1_created reg_inv_reg1 active_bs1 trig_reg1 tv_usecs_def)
qed

text \<open>
  C10. Whenever the free list is non-empty (\<open>free_count > 0\<close> in a well-formed registry),
  \<open>tmr_create\<close> cannot fail: whatever \<open>malloc\<close> would return, it takes the record \<open>t\<close> at
  the head of the free list, whose head becomes the successor of \<open>t\<close>, allocates nothing
  (\<open>alloc_count\<close> is unchanged, \<open>free_count\<close> decreases by one), and returns \<open>t\<close> as a
  valid handle: \<open>t\<close> carries the callback, argument, delay, flag and trigger of the
  call, it is on the active list \<open>h\<close> of its hash at the position \<open>l_ins\<close>
  (\<open>active_count\<close> increases by one), and the registry is well formed.
\<close>

theorem C10_create_from_free_list:
  assumes "reg_inv s bs fl" and "0 < free_count s"
  shows "\<exists>t fl' s' h. fl = t # fl' \<and> free_timers s = Some t
           \<and> (\<forall>m. tmr_create s m now clk c g ms per = Some (Some t, s'))
           \<and> free_timers s' = next (mem s t)
           \<and> h < HASH_SIZE \<and> reg_inv s' (bs(h := l_ins (trig s') t (bs h))) fl'
           \<and> cb (mem s' t) = c \<and> arg (mem s' t) = g \<and> msecs (mem s' t) = ms
           \<and> periodic (mem s' t) = per \<and> trig s' t = create_time s t now clk ms
           \<and> hash_field (mem s' t) = h
           \<and> alloc_count s' = alloc_count s \<and> free_count s' = free_count s - 1
           \<and> active_count s' = active_count s + 1"
proof -
  from assms obtain t fl' where fl: "fl = t # fl'"
    by (cases fl) (auto simp: reg_inv_def)
  from assms(1) have ft: "free_timers s = Some t" and sl: "sll (mem s) (next (mem s t)) fl'"
    by (simp_all add: fl reg_inv_def)
  define h where "h = hash (null_timer\<lparr>time := create_time s t now clk ms\<rparr>)"
  from reg_create_free[OF assms(1)[unfolded fl], where now = now and clk = clk and ms = ms
         and c = c and g = g and per = per]
  obtain s' where
    r: "\<forall>m. tmr_create s m now clk c g ms per = Some (Some t, s')"
      "reg_inv s' (bs(h := l_ins (trig s') t (bs h))) fl'"
      "payload (mem s' t) = (c, g, ms, per, create_time s t now clk ms, h)"
      "alloc_count s' = alloc_count s" "free_count s' = free_count s - 1"
      "active_count s' = active_count s + 1"
    unfolding h_def by blast
  from r(2) have "sll (mem s') (free_timers s') fl'" by (simp add: reg_inv_def)
  then have "free_timers s' = list_head fl'" by (rule sll_head)
  also have "\<dots> = next (mem s t)" using sll_head[OF sl] by simp
  finally have pop: "free_timers s' = next (mem s t)" .
  have hl: "h < HASH_SIZE" unfolding h_def by (rule hash_less)
  from r(3) have p: "cb (mem s' t) = c" "arg (mem s' t) = g" "msecs (mem s' t) = ms"
      "periodic (mem s' t) = per" "trig s' t = create_time s t now clk ms"
      "hash_field (mem s' t) = h"
    by (simp_all add: payload_def trig_def)
  from fl ft r(1,2,4,5,6) pop hl p show ?thesis by blast
qed

theorem C10_create_from_free_list_witness:
  "reg_inv reg_free1 (\<lambda>_. []) [5] \<and> 0 < free_count reg_free1
   \<and> (\<exists>s' h. tmr_create reg_free1 None (Some \<lparr>tv_sec = 0, tv_usec = 0\<rparr>) None 7 9 100 0
                = Some (Some 5, s')
         \<and> free_timers s' = None \<and> h < HASH_SIZE
         \<and> reg_inv s' ((\<lambda>_. [])(h := [5])) []
         \<and> alloc_count s' = 1 \<and> free_count s' = 0 \<and> active_count s' = 1)"
proof -
  have f: "0 < free_count reg_free1" "alloc_count reg_free1 = 1" "free_count reg_free1 = 1"
    "active_count reg_free1 = 0" "next (mem reg_free1 5) = None"
    by (simp_all add: reg_free1_def reg0_def null_timer_def)
  from C10_create_from_free_list[OF reg_inv_free1 f(1),
      where now = "Some \<lparr>tv_sec = 0, tv_usec = 0\<rparr>" and clk = None and c = 7 and g = 9
        and ms = 100 and per = 0]
  obtain t fl' s' h where
    r: "[5] = t # fl'"
      "\<forall>m. tmr_create reg_free1 m (Some \<lparr>tv_sec = 0, tv_usec = 0\<rparr>) None 7 9 100 0
             = Some (Some t, s')"
      "free_timers s' = next (mem reg_free1 t)" "h < HASH_SIZE"
      "reg_inv s' ((\<lambda>_. [])(h := l_ins (trig s') t [])) fl'"
      "alloc_count s' = alloc_count reg_free1" "free_count s' = free_count reg_free1 - 1"
      "active_count s' = active_count reg_free1 + 1"
    by auto
  from r(1) have t: "t = 5" "fl' = []" by simp_all
  from r(5) have "reg_inv s' ((\<lambda>_. [])(h := [5])) []" by (simp add: t l_ins_def)
  with r(2,3,4,6,7,8) f reg_inv_free1 show ?thesis unfolding t by (simp add: t) blast
qed

end
